theory Spec2Isabelle
  imports Complex_Main
begin

section \<open>Data model\<close>

text \<open>
  The program (\<^verbatim>\<open>src/main.py\<close>) keeps one global dictionary \<^verbatim>\<open>DOWNLOAD_TASKS\<close>
  from task identifiers to task dictionaries. A task dictionary is written by exactly
  one background thread (\<^verbatim>\<open>download_video\<close> or \<^verbatim>\<open>batch_download\<close>) and read by
  the HTTP handlers \<^verbatim>\<open>get_download_progress\<close> and \<^verbatim>\<open>download_completed_file\<close>.

  Numbers: Python mixes \<^verbatim>\<open>int\<close> and \<^verbatim>\<open>float\<close> in the \<^verbatim>\<open>progress\<close> field. Both are
  modelled as exact rationals, so the constant \<^verbatim>\<open>0.7\<close> is \<open>7/10\<close> and rounding of
  IEEE doubles is not part of the model. Points in time (\<^verbatim>\<open>datetime.now()\<close>) are
  rationals counting seconds.
\<close>

type_synonym timestamp = rat

text \<open>An entry of the \<^verbatim>\<open>files\<close> list of a batch task:
  \<^verbatim>\<open>{'title': title, 'status': 'completed'}\<close> or
  \<^verbatim>\<open>{'url': url, 'status': 'error', 'error': str(e)}\<close>.\<close>

datatype file_entry = FileCompleted string | FileError string string

text \<open>
  A task dictionary. A key that only one of the two kinds of task carries is an
  \<open>option\<close> field, \<open>None\<close> meaning that the key is absent:
  \<^verbatim>\<open>filename\<close> and \<^verbatim>\<open>error\<close> exist only in single-download tasks,
  \<^verbatim>\<open>total_files\<close>, \<^verbatim>\<open>completed_files\<close>, \<^verbatim>\<open>files\<close> and \<^verbatim>\<open>errors\<close> only in batch
  tasks. The value of \<^verbatim>\<open>error\<close> is itself Python's \<^verbatim>\<open>None\<close> or a string, hence the
  nested option. An element of \<^verbatim>\<open>errors\<close> is \<^verbatim>\<open>{'url': url, 'error': str(e)}\<close>.
\<close>

record task =
  status :: string
  progress :: rat
  filename :: "string option"
  error :: "string option option"
  start_time :: timestamp
  post_processing :: bool
  total_files :: "nat option"
  completed_files :: "nat option"
  files :: "file_entry list option"
  errors :: "(string \<times> string) list option"

type_synonym registry = "string \<rightharpoonup> task"

text \<open>
  The \<^verbatim>\<open>post_process\<close> argument as it arrives from the JSON body: absent
  (\<^verbatim>\<open>None\<close>), a string (a preset name that was not resolved), or an object, kept as
  an association list with distinct keys. \<^verbatim>\<open>if post_process\<close> is Python truthiness: \<^verbatim>\<open>None\<close>, the
  empty string and the empty object are false.
\<close>

datatype pp_value = PresetName string | Config "(string \<times> string) list"

definition truthy_pp :: "pp_value option \<Rightarrow> bool" where
  "truthy_pp pp = (case pp of
      None \<Rightarrow> False
    | Some (PresetName s) \<Rightarrow> s \<noteq> []
    | Some (Config kv) \<Rightarrow> kv \<noteq> [])"

text \<open>\<^verbatim>\<open>if task_id\<close>: \<^verbatim>\<open>None\<close> and the empty string are false.\<close>

definition truthy_id :: "string option \<Rightarrow> bool" where
  "truthy_id task_id = (case task_id of None \<Rightarrow> False | Some s \<Rightarrow> s \<noteq> [])"

section \<open>The external engines\<close>

text \<open>
  The retrieval engine (yt-dlp) is outside the repository. One call of
  \<^verbatim>\<open>ydl.extract_info(url, download=True)\<close> followed by \<^verbatim>\<open>ydl.prepare_filename(info)\<close>
  and \<^verbatim>\<open>info.get('title', 'download')\<close> is described by what the program can
  observe of it: the dictionaries \<^verbatim>\<open>d\<close> passed to the progress hook, in order, and
  then either an exception (its message) or the file name and title.

  Of a hook dictionary the program reads \<^verbatim>\<open>d['status']\<close>, \<^verbatim>\<open>d.get('filename', '')\<close> and,
  when the status is \<^verbatim>\<open>'downloading'\<close>,
  \<^verbatim>\<open>float(d.get('_percent_str', '0%').replace('%', ''))\<close>. The result of that parse is
  carried by the event: \<open>Some p\<close> for the (finite) number, \<open>None\<close> when \<^verbatim>\<open>float\<close> raises
  \<^verbatim>\<open>ValueError\<close> (yt-dlp prints \<^verbatim>\<open>'Unknown %'\<close> when the size is not known).
\<close>

datatype hook_event =
    Downloading "rat option" string
  | Finished string
  | OtherStatus

record fetch_run =
  events :: "hook_event list"
  outcome :: "string + (string \<times> string)"

text \<open>
  The transcoding engine (ffmpeg through \<^verbatim>\<open>ffmpeg-python\<close>) is outside the repository
  too. A method of \<^verbatim>\<open>FFmpegProcessor\<close> first raises when \<^verbatim>\<open>ffmpeg_available\<close> is
  false, then computes an output path and runs ffmpeg; the part after the guard is the
  parameter \<open>engine\<close>, which returns the output path (\<open>Inr\<close>) or the message of the
  exception raised (\<open>Inl\<close>).
\<close>

datatype ffmpeg_call =
    CompressVideo string string
  | ExtractAudio string string string
  | ConvertVideo string string string "string option"
  | TrimVideo string string string
  | AddWatermark string string string

type_synonym engine = "ffmpeg_call \<Rightarrow> string + string"

definition run_ffmpeg :: "bool \<Rightarrow> engine \<Rightarrow> ffmpeg_call \<Rightarrow> string + string" where
  "run_ffmpeg ffmpeg_available eng c =
     (if \<not> ffmpeg_available then Inl ''FFmpeg is not available'' else eng c)"

text \<open>\<^verbatim>\<open>config.get(key, default)\<close> on the association list.\<close>

definition get_or :: "(string \<times> string) list \<Rightarrow> string \<Rightarrow> string \<Rightarrow> string" where
  "get_or cfg k d = (case map_of cfg k of None \<Rightarrow> d | Some v \<Rightarrow> v)"

text \<open>
  The \<^verbatim>\<open>if/elif\<close> chain of \<^verbatim>\<open>_apply_post_processing\<close>: which method of the processor
  is called, with which arguments; \<open>None\<close> is the final \<^verbatim>\<open>else: return filename\<close>.
\<close>

definition select_call :: "string \<Rightarrow> (string \<times> string) list \<Rightarrow> ffmpeg_call option" where
  "select_call fname cfg =
     (let action = map_of cfg ''action'' in
      if action = Some ''compress'' then
        Some (CompressVideo fname (get_or cfg ''level'' ''medium''))
      else if action = Some ''extract_audio'' then
        Some (ExtractAudio fname (get_or cfg ''format'' ''mp3'') (get_or cfg ''quality'' ''192k''))
      else if action = Some ''convert'' then
        Some (ConvertVideo fname (get_or cfg ''format'' ''mp4'') (get_or cfg ''quality'' ''medium'')
                (map_of cfg ''resolution''))
      else if action = Some ''trim'' then
        Some (TrimVideo fname (get_or cfg ''start_time'' ''00:00:00'')
                (get_or cfg ''duration'' ''00:01:00''))
      else if action = Some ''watermark'' then
        Some (AddWatermark fname (get_or cfg ''text'' ''Downloaded with Advanced Downloader'')
                (get_or cfg ''position'' ''bottom-right''))
      else None)"

text \<open>
  \<^verbatim>\<open>_apply_post_processing(filename, post_process_config)\<close>. The whole body is inside
  \<^verbatim>\<open>try ... except Exception: return filename\<close>: an exception of the processor, and
  the \<^verbatim>\<open>AttributeError\<close> of \<^verbatim>\<open>.get\<close> on a string or on \<^verbatim>\<open>None\<close>, both give back
  the original file name. The result is the returned path and the list of processor
  calls made.
\<close>

definition apply_post_processing ::
  "bool \<Rightarrow> engine \<Rightarrow> string \<Rightarrow> pp_value option \<Rightarrow> string \<times> ffmpeg_call list" where
  "apply_post_processing ffmpeg_available eng fname post_process_config =
     (case post_process_config of
        None \<Rightarrow> (fname, [])
      | Some (PresetName s) \<Rightarrow> (fname, [])
      | Some (Config kv) \<Rightarrow>
          (case select_call fname kv of
             None \<Rightarrow> (fname, [])
           | Some c \<Rightarrow>
               (case run_ffmpeg ffmpeg_available eng c of
                  Inl e \<Rightarrow> (fname, [c])
                | Inr out \<Rightarrow> (out, [c]))))"

section \<open>Writes to a task\<close>

text \<open>
  Every assignment \<^verbatim>\<open>DOWNLOAD_TASKS[task_id][key] = v\<close> is one write. The writer thread
  holds no lock, so a reader can see the task after any single write: a run of the
  writer is modelled as the list of task values after each write, in program order.
\<close>

definition set_status :: "string \<Rightarrow> task \<Rightarrow> task" where
  "set_status s t = t\<lparr>status := s\<rparr>"

definition set_progress :: "rat \<Rightarrow> task \<Rightarrow> task" where
  "set_progress p t = t\<lparr>progress := p\<rparr>"

definition set_filename :: "string \<Rightarrow> task \<Rightarrow> task" where
  "set_filename f t = t\<lparr>filename := Some f\<rparr>"

definition set_error :: "string \<Rightarrow> task \<Rightarrow> task" where
  "set_error e t = t\<lparr>error := Some (Some e)\<rparr>"

definition set_completed_files :: "nat \<Rightarrow> task \<Rightarrow> task" where
  "set_completed_files n t = t\<lparr>completed_files := Some n\<rparr>"

definition append_file :: "file_entry \<Rightarrow> task \<Rightarrow> task" where
  "append_file e t = t\<lparr>files := map_option (\<lambda>fs. fs @ [e]) (files t)\<rparr>"

definition append_error :: "string \<times> string \<Rightarrow> task \<Rightarrow> task" where
  "append_error e t = t\<lparr>errors := map_option (\<lambda>es. es @ [e]) (errors t)\<rparr>"

fun after_each :: "task \<Rightarrow> (task \<Rightarrow> task) list \<Rightarrow> task list" where
  "after_each t [] = []"
| "after_each t (w # ws) = w t # after_each (w t) ws"

section \<open>Single download\<close>

text \<open>
  \<^verbatim>\<open>progress_hook(d)\<close>, the closure inside \<^verbatim>\<open>download_video\<close>, as the writes it makes.
  It is installed only when \<^verbatim>\<open>task_id\<close> is truthy, and its guard
  \<^verbatim>\<open>task_id in DOWNLOAD_TASKS\<close> holds because the entry was created at the top of the
  same call. In the \<^verbatim>\<open>'downloading'\<close> branch the parse comes first inside the \<^verbatim>\<open>try\<close>,
  so a failed parse skips all three writes.
\<close>

fun progress_hook :: "pp_value option \<Rightarrow> hook_event \<Rightarrow> (task \<Rightarrow> task) list" where
  "progress_hook post_process (Downloading None fname) = []"
| "progress_hook post_process (Downloading (Some percent) fname) =
     [set_progress (percent * (7 / 10)), set_status ''downloading'', set_filename fname]"
| "progress_hook post_process (Finished fname) =
     (if truthy_pp post_process
      then [set_status ''post_processing'', set_progress 70]
      else [set_status ''finished'', set_progress 100]) @ [set_filename fname]"
| "progress_hook post_process OtherStatus = []"

text \<open>The dictionary stored at the top of \<^verbatim>\<open>download_video\<close>.\<close>

definition new_task :: "timestamp \<Rightarrow> pp_value option \<Rightarrow> task" where
  "new_task now post_process =
     \<lparr>status = ''starting'', progress = 0, filename = Some '''', error = Some None,
      start_time = now, post_processing = (post_process \<noteq> None),
      total_files = None, completed_files = None, files = None, errors = None\<rparr>"

record dv_result =
  trace :: "task list"
  returned :: "string + (string \<times> string)"
  calls :: "ffmpeg_call list"

text \<open>
  \<^verbatim>\<open>download_video(url, format_selector, task_id, download_subtitles, post_process)\<close>.
  The arguments \<^verbatim>\<open>url\<close>, \<^verbatim>\<open>format_selector\<close> and \<^verbatim>\<open>download_subtitles\<close>, and the
  \<^verbatim>\<open>FFmpegVideoConvertor\<close> entry added when the engine is available and no
  post-processing is requested, only go into the options handed to the retrieval
  engine, whose behaviour on this call is \<open>run\<close>.
  \<open>trace\<close> is the task after its creation and after every later write (empty when no
  task is tracked); \<open>returned\<close> is the returned pair \<^verbatim>\<open>(filename, title)\<close> or the
  message of the exception raised; \<open>calls\<close> are the processor calls made.
\<close>

definition download_video ::
  "bool \<Rightarrow> engine \<Rightarrow> fetch_run \<Rightarrow> timestamp \<Rightarrow> string option \<Rightarrow> pp_value option \<Rightarrow> dv_result" where
  "download_video ffmpeg_available eng run now task_id post_process =
     (let tracked = truthy_id task_id;
          during = (\<lambda>ws. if tracked then ws else []);
          hooks = during (concat (map (progress_hook post_process) (events run)));
          init = new_task now post_process;
          result = (\<lambda>ws r cs.
             \<lparr>trace = (if tracked then init # after_each init ws else []),
              returned = r, calls = cs\<rparr>)
      in case outcome run of
           Inl e \<Rightarrow>
             result (hooks @ during [set_status ''error'', set_error e])
               (Inl (''Error downloading video: '' @ e)) []
         | Inr (fname, title) \<Rightarrow>
             if truthy_pp post_process \<and> ffmpeg_available then
               (let (processed, cs) =
                      apply_post_processing ffmpeg_available eng fname post_process
                in result
                     (hooks
                      @ during [set_status ''post_processing'', set_progress 75]
                      @ during [set_progress 100, set_status ''completed'',
                                set_filename processed])
                     (Inr (processed, title)) cs)
             else
               result
                 (hooks @ during [set_status ''completed'', set_filename fname,
                                  set_progress 100])
                 (Inr (fname, title)) [])"

section \<open>Batch download\<close>

text \<open>\<^verbatim>\<open>str(n)\<close> for a natural number: its decimal digits.\<close>

definition digit_char :: "nat \<Rightarrow> char" where
  "digit_char d = char_of (of_char (CHR ''0'') + d)"

function str_nat :: "nat \<Rightarrow> string" where
  "str_nat n = (if n < 10 then [digit_char n] else str_nat (n div 10) @ [digit_char (n mod 10)])"
  by pat_completeness auto
termination
  by (relation "measure id") auto

declare str_nat.simps [simp del]

text \<open>The dictionary stored at the top of \<^verbatim>\<open>batch_download\<close>; it has no
  \<^verbatim>\<open>filename\<close> and no \<^verbatim>\<open>error\<close> key.\<close>

definition new_batch_task :: "timestamp \<Rightarrow> nat \<Rightarrow> pp_value option \<Rightarrow> task" where
  "new_batch_task now n post_process =
     \<lparr>status = ''starting'', progress = 0, filename = None, error = None,
      start_time = now, post_processing = (post_process \<noteq> None),
      total_files = Some n, completed_files = Some 0, files = Some [], errors = Some []\<rparr>"

text \<open>
  The loop \<^verbatim>\<open>for i, url in enumerate(urls)\<close> of \<^verbatim>\<open>batch_download\<close>. An item of the
  list is a URL with the behaviour of the retrieval engine on it. The inner call of
  \<^verbatim>\<open>download_video\<close> passes no \<^verbatim>\<open>task_id\<close>. The result is the writes to the batch task,
  the local list \<^verbatim>\<open>downloaded_files\<close> (file name, title, URL) and the local list
  \<^verbatim>\<open>errors\<close> (URL, message). \<open>n\<close> is \<^verbatim>\<open>len(urls)\<close> and \<open>i\<close> the index of the first
  item of the list.
\<close>

fun batch_loop ::
  "bool \<Rightarrow> engine \<Rightarrow> timestamp \<Rightarrow> pp_value option \<Rightarrow> bool \<Rightarrow> nat \<Rightarrow> nat \<Rightarrow>
   (string \<times> fetch_run) list \<Rightarrow>
   (task \<Rightarrow> task) list \<times> (string \<times> string \<times> string) list \<times> (string \<times> string) list" where
  "batch_loop ffmpeg_available eng now post_process tracked n i [] = ([], [], [])"
| "batch_loop ffmpeg_available eng now post_process tracked n i ((url, run) # rest) =
     (let during = (\<lambda>ws. if tracked then ws else []);
          (ws, downloaded, errs) =
             batch_loop ffmpeg_available eng now post_process tracked n (i + 1) rest
      in case returned (download_video ffmpeg_available eng run now None post_process) of
           Inr (fname, title) \<Rightarrow>
             (during [set_status (''downloading '' @ str_nat (i + 1) @ ''/'' @ str_nat n)]
              @ during [set_completed_files (i + 1),
                        set_progress ((of_nat (i + 1) / of_nat n) * 100),
                        append_file (FileCompleted title)]
              @ ws,
              (fname, title, url) # downloaded, errs)
         | Inl e \<Rightarrow>
             (during [set_status (''downloading '' @ str_nat (i + 1) @ ''/'' @ str_nat n)]
              @ during [append_error (url, e), append_file (FileError url e)]
              @ ws,
              downloaded, (url, e) # errs))"

record batch_result =
  batch_trace :: "task list"
  downloaded_files :: "(string \<times> string \<times> string) list"
  batch_errors :: "(string \<times> string) list"

text \<open>\<^verbatim>\<open>batch_download(urls, format_selector, task_id, post_process)\<close>.\<close>

definition batch_download ::
  "bool \<Rightarrow> engine \<Rightarrow> timestamp \<Rightarrow> (string \<times> fetch_run) list \<Rightarrow> string option \<Rightarrow>
   pp_value option \<Rightarrow> batch_result" where
  "batch_download ffmpeg_available eng now urls task_id post_process =
     (let tracked = truthy_id task_id;
          init = new_batch_task now (length urls) post_process;
          (ws, downloaded, errs) =
             batch_loop ffmpeg_available eng now post_process tracked (length urls) 0 urls;
          final = (if tracked then [set_status ''completed'', set_progress 100] else [])
      in \<lparr>batch_trace = (if tracked then init # after_each init (ws @ final) else []),
          downloaded_files = downloaded, batch_errors = errs\<rparr>)"

section \<open>HTTP handlers that read a task\<close>

text \<open>
  A response is a JSON error with its HTTP status, the task as JSON, or a file sent as
  an attachment. A handler returns its response and the registry it leaves behind.
\<close>

datatype response = JsonError string nat | JsonTask task | SendFile string

text \<open>
  \<^verbatim>\<open>get_download_progress(task_id)\<close>. \<open>now\<close> is \<^verbatim>\<open>datetime.now()\<close>. The stored
  \<^verbatim>\<open>start_time\<close> was written by \<^verbatim>\<open>isoformat()\<close>, so \<^verbatim>\<open>fromisoformat\<close> does not raise
  and the bare \<^verbatim>\<open>except\<close> is not taken.
\<close>

definition get_download_progress :: "registry \<Rightarrow> timestamp \<Rightarrow> string \<Rightarrow> response \<times> registry" where
  "get_download_progress tasks now task_id =
     (case tasks task_id of
        None \<Rightarrow> (JsonError ''Task not found'' 404, tasks)
      | Some t \<Rightarrow>
          if status t \<in> set [''completed'', ''error''] \<and> now - start_time t > 3600
          then (JsonError ''Task expired'' 404, tasks(task_id := None))
          else (JsonTask t, tasks))"

text \<open>
  \<^verbatim>\<open>download_completed_file(task_id)\<close>. \<open>path_exists\<close> is \<^verbatim>\<open>os.path.exists\<close> on the
  current file system. \<^verbatim>\<open>task.get('filename')\<close> is \<^verbatim>\<open>None\<close> when the key is absent,
  and \<^verbatim>\<open>not filename\<close> holds for \<^verbatim>\<open>None\<close> and for the empty string.
\<close>

definition download_completed_file ::
  "registry \<Rightarrow> (string \<Rightarrow> bool) \<Rightarrow> string \<Rightarrow> response \<times> registry" where
  "download_completed_file tasks path_exists task_id =
     (case tasks task_id of
        None \<Rightarrow> (JsonError ''Task not found'' 404, tasks)
      | Some t \<Rightarrow>
          if status t \<noteq> ''completed'' then (JsonError ''Download not completed'' 400, tasks)
          else (case filename t of
                  None \<Rightarrow> (JsonError ''File not found'' 404, tasks)
                | Some f \<Rightarrow>
                    if f = [] \<or> \<not> path_exists f then (JsonError ''File not found'' 404, tasks)
                    else (SendFile f, tasks)))"

section \<open>Notions used to state the properties\<close>

text \<open>The terminal statuses, as \<^verbatim>\<open>get_download_progress\<close> tests them:
  \<^verbatim>\<open>task['status'] in ['completed', 'error']\<close>.\<close>

definition is_terminal :: "string \<Rightarrow> bool" where
  "is_terminal s = (s \<in> set [''completed'', ''error''])"

text \<open>
  The writes \<^verbatim>\<open>download_video\<close> makes after the retrieval engine has returned or
  raised: the \<^verbatim>\<open>except\<close> block, the post-processing branch, or the plain completion.
\<close>

definition closing_writes ::
  "bool \<Rightarrow> engine \<Rightarrow> fetch_run \<Rightarrow> pp_value option \<Rightarrow> (task \<Rightarrow> task) list" where
  "closing_writes ffmpeg_available eng run post_process =
     (case outcome run of
        Inl e \<Rightarrow> [set_status ''error'', set_error e]
      | Inr (fname, title) \<Rightarrow>
          if truthy_pp post_process \<and> ffmpeg_available then
            [set_status ''post_processing'', set_progress 75, set_progress 100,
             set_status ''completed'',
             set_filename (fst (apply_post_processing ffmpeg_available eng fname post_process))]
          else [set_status ''completed'', set_filename fname, set_progress 100])"

text \<open>
  A retrieval engine whose reports are orderly: no percentage is reported after a
  completion report, the percentages do not decrease, and each lies between the
  previous one (\<open>lo\<close>, initially 0) and 100. \<open>fin\<close> records that a completion report
  has been seen.
\<close>

fun orderly :: "rat \<Rightarrow> bool \<Rightarrow> hook_event list \<Rightarrow> bool" where
  "orderly lo fin [] = True"
| "orderly lo fin (Downloading None fname # es) = orderly lo fin es"
| "orderly lo fin (Downloading (Some p) fname # es) =
     (\<not> fin \<and> lo \<le> p \<and> p \<le> 100 \<and> orderly p fin es)"
| "orderly lo fin (Finished fname # es) = orderly lo True es"
| "orderly lo fin (OtherStatus # es) = orderly lo fin es"

text \<open>The weaker condition that no percentage is reported after a completion report.\<close>

fun fetch_before_finish :: "bool \<Rightarrow> hook_event list \<Rightarrow> bool" where
  "fetch_before_finish fin [] = True"
| "fetch_before_finish fin (Downloading None fname # es) = fetch_before_finish fin es"
| "fetch_before_finish fin (Downloading (Some p) fname # es) =
     (\<not> fin \<and> fetch_before_finish fin es)"
| "fetch_before_finish fin (Finished fname # es) = fetch_before_finish True es"
| "fetch_before_finish fin (OtherStatus # es) = fetch_before_finish fin es"

text \<open>
  The order of the statuses of a single download: \<^verbatim>\<open>starting\<close>, then \<^verbatim>\<open>downloading\<close>,
  then \<^verbatim>\<open>finished\<close> or \<^verbatim>\<open>post_processing\<close>, then a terminal status. A step keeps the
  status, or leaves a non-terminal status for \<^verbatim>\<open>error\<close> or for a status later in the
  order.
\<close>

definition status_rank :: "string \<Rightarrow> nat" where
  "status_rank s =
     (if s = ''starting'' then 0
      else if s = ''downloading'' then 1
      else if s = ''finished'' \<or> s = ''post_processing'' then 2
      else 3)"

definition status_step :: "string \<Rightarrow> string \<Rightarrow> bool" where
  "status_step a b =
     (a = b \<or> (\<not> is_terminal a \<and> (b = ''error'' \<or> status_rank a < status_rank b)))"

text \<open>The two halves of the progress invariant, on the successive values of a task.\<close>

definition progress_never_regresses :: "task list \<Rightarrow> bool" where
  "progress_never_regresses ts =
     successively (\<lambda>a b. is_terminal (status a) \<or> progress a \<le> progress b) ts"

definition frozen_once_terminal :: "task list \<Rightarrow> bool" where
  "frozen_once_terminal ts =
     successively (\<lambda>a b. \<not> is_terminal (status a) \<or>
        (progress b = progress a \<and> filename b = filename a \<and> error b = error a)) ts"

section \<open>Facts about sequences of writes\<close>

lemma after_each_append:
  "after_each t (ws @ vs) = after_each t ws @ after_each (last (t # after_each t ws)) vs"
  by (induction ws arbitrary: t) auto

lemmas setters = set_status_def set_progress_def set_filename_def set_error_def
  set_completed_files_def append_file_def append_error_def

subsection \<open>The trace of a single download\<close>

text \<open>
  The trace of a tracked download is the new task followed by the task after each write
  of the callbacks and then of the closing block.
\<close>

lemma trace_tracked:
  "truthy_id task_id \<Longrightarrow>
   trace (download_video av eng run now task_id pp) =
     new_task now pp # after_each (new_task now pp)
       (concat (map (progress_hook pp) (events run)) @ closing_writes av eng run pp)"
  by (auto simp: download_video_def closing_writes_def Let_def split: sum.splits prod.splits)

lemma trace_untracked:
  "\<not> truthy_id task_id \<Longrightarrow> trace (download_video av eng run now task_id pp) = []"
  by (auto simp: download_video_def Let_def split: sum.splits prod.splits)

lemma last_after_each_append:
  "last (t # after_each t (ws @ vs)) = last (last (t # after_each t ws) # after_each (last (t # after_each t ws)) vs)"
  by (induction ws arbitrary: t) auto

lemma successively_after_each_append:
  "successively P (t # after_each t (ws @ vs)) \<longleftrightarrow>
     successively P (t # after_each t ws) \<and>
     successively P (last (t # after_each t ws) # after_each (last (t # after_each t ws)) vs)"
  by (induction ws arbitrary: t) (auto simp: successively_Cons)

lemma list_all_after_each_append:
  "list_all P (t # after_each t (ws @ vs)) \<longleftrightarrow>
     list_all P (t # after_each t ws) \<and>
     list_all P (after_each (last (t # after_each t ws)) vs)"
  by (induction ws arbitrary: t) auto

lemma after_each_invariant:
  "P t \<Longrightarrow> (\<And>w s. w \<in> set ws \<Longrightarrow> P s \<Longrightarrow> P (w s)) \<Longrightarrow> list_all P (t # after_each t ws)"
  by (induction ws arbitrary: t) auto

lemma last_after_each_invariant:
  "P t \<Longrightarrow> (\<And>w s. w \<in> set ws \<Longrightarrow> P s \<Longrightarrow> P (w s)) \<Longrightarrow> P (last (t # after_each t ws))"
  by (induction ws arbitrary: t) auto

lemma hook_write_cases:
  assumes "w \<in> set (concat (map (progress_hook pp) es))"
  shows "(\<exists>p. w = set_progress p) \<or> (\<exists>f. w = set_filename f) \<or> w = set_status ''downloading''
         \<or> (w = set_status ''post_processing'' \<and> truthy_pp pp)
         \<or> (w = set_status ''finished'' \<and> \<not> truthy_pp pp)"
proof -
  from assms obtain e where "e \<in> set es" and w: "w \<in> set (progress_hook pp e)" by auto
  from w show ?thesis
    by (cases "(pp, e)" rule: progress_hook.cases) (auto split: if_splits)
qed

lemma hooks_keep_active:
  assumes "status t \<in> set [''starting'', ''downloading'', ''finished'', ''post_processing'']"
  shows "list_all (\<lambda>s. status s \<in> set [''starting'', ''downloading'', ''finished'', ''post_processing''])
           (t # after_each t (concat (map (progress_hook pp) es)))"
proof (rule after_each_invariant
    [where P = "\<lambda>s::task. status s \<in> set [''starting'', ''downloading'', ''finished'', ''post_processing'']"])
  show "status t \<in> set [''starting'', ''downloading'', ''finished'', ''post_processing'']"
    by (rule assms)
next
  fix w and s :: task
  assume "w \<in> set (concat (map (progress_hook pp) es))"
    and "status s \<in> set [''starting'', ''downloading'', ''finished'', ''post_processing'']"
  then show "status (w s) \<in> set [''starting'', ''downloading'', ''finished'', ''post_processing'']"
    using hook_write_cases [of w pp es] by (auto simp: setters)
qed

subsection \<open>Progress under an orderly engine\<close>

lemma hooks_progress:
  assumes "orderly lo fin es"
    and "if fin then progress t = (if truthy_pp pp then 70 else 100)
         else progress t \<le> lo * (7 / 10) \<and> lo \<le> 100"
  shows "successively (\<lambda>a b. progress a \<le> progress b)
           (t # after_each t (concat (map (progress_hook pp) es)))
         \<and> progress (last (t # after_each t (concat (map (progress_hook pp) es))))
             \<le> (if truthy_pp pp then 70 else 100)"
  using assms
proof (induction lo fin es arbitrary: t rule: orderly.induct)
  case (1 lo fin)
  then show ?case by (auto split: if_splits)
next
  case (2 lo fin fname es)
  then show ?case by simp
next
  case (3 lo fin p fname es)
  let ?t' = "set_filename fname (set_status ''downloading'' (set_progress (p * (7 / 10)) t))"
  from 3 have nf: "\<not> fin" and b: "lo \<le> p" "p \<le> 100" and o: "orderly p fin es" by auto
  from 3(3) nf have le: "progress t \<le> lo * (7 / 10)" by simp
  have inv: "if fin then progress ?t' = (if truthy_pp pp then 70 else 100)
             else progress ?t' \<le> p * (7 / 10) \<and> p \<le> 100"
    using nf b by (simp add: setters)
  from "3.IH" [OF o inv] le b show ?case
    by (simp add: setters successively_Cons)
next
  case (4 lo fin fname es)
  let ?t' = "last (t # after_each t (progress_hook pp (Finished fname)))"
  have inv: "if True then progress ?t' = (if truthy_pp pp then 70 else 100)
             else progress ?t' \<le> lo * (7 / 10) \<and> lo \<le> 100"
    by (simp add: setters)
  from 4 have o: "orderly lo True es" by simp
  have le: "progress t \<le> (if truthy_pp pp then 70 else 100)"
    using "4.prems"(2) by (auto split: if_splits)
  from "4.IH" [OF o inv] le show ?case
    by (auto simp add: setters successively_Cons after_each_append split: if_splits)
next
  case (5 lo fin es)
  then show ?case by simp
qed

lemma closing_progress:
  "progress s \<le> (if truthy_pp pp then 70 else 100) \<Longrightarrow>
   successively (\<lambda>a b. progress a \<le> progress b) (s # after_each s (closing_writes av eng run pp))"
  by (auto simp: closing_writes_def setters successively_Cons split: sum.splits prod.splits if_splits)

lemma single_progress_sorted:
  assumes "truthy_id task_id" and "orderly 0 False (events run)"
  shows "successively (\<lambda>a b. progress a \<le> progress b)
           (trace (download_video av eng run now task_id pp))"
proof -
  have "if False then progress (new_task now pp) = (if truthy_pp pp then 70 else 100)
        else progress (new_task now pp) \<le> 0 * (7 / 10) \<and> (0::rat) \<le> 100"
    by (simp add: new_task_def)
  from hooks_progress [OF assms(2) this]
  show ?thesis
    by (simp only: trace_tracked [OF assms(1)] successively_after_each_append closing_progress
        simp_thms)
qed

subsection \<open>A terminal status is written last and kept\<close>

lemma successively_if_all:
  "list_all (\<lambda>s. \<not> T s) xs \<Longrightarrow> successively (\<lambda>a b. \<not> T a \<or> Q a b) xs"
  by (induction xs) (auto simp: successively_Cons)

lemma active_not_terminal:
  "s \<in> set [''starting'', ''downloading'', ''finished'', ''post_processing''] \<Longrightarrow> \<not> is_terminal s"
  by (auto simp: is_terminal_def)

lemma closing_status_kept:
  "\<not> is_terminal (status s) \<Longrightarrow>
   successively (\<lambda>a b. \<not> is_terminal (status a) \<or> status b = status a)
     (s # after_each s (closing_writes av eng run pp))"
  by (auto simp: closing_writes_def setters successively_Cons is_terminal_def
      split: sum.splits prod.splits if_splits)

lemma closing_terminal:
  "is_terminal (status (last (s # after_each s (closing_writes av eng run pp))))"
  by (auto simp: closing_writes_def setters is_terminal_def split: sum.splits prod.splits if_splits)

lemma hooks_active_last:
  "status (last (new_task now pp # after_each (new_task now pp) (concat (map (progress_hook pp) es))))
     \<in> set [''starting'', ''downloading'', ''finished'', ''post_processing'']"
proof (rule last_after_each_invariant
    [where P = "\<lambda>s::task. status s \<in> set [''starting'', ''downloading'', ''finished'', ''post_processing'']"])
  show "status (new_task now pp) \<in> set [''starting'', ''downloading'', ''finished'', ''post_processing'']"
    by (simp add: new_task_def)
next
  fix w and s :: task
  assume "w \<in> set (concat (map (progress_hook pp) es))"
    and "status s \<in> set [''starting'', ''downloading'', ''finished'', ''post_processing'']"
  then show "status (w s) \<in> set [''starting'', ''downloading'', ''finished'', ''post_processing'']"
    using hook_write_cases [of w pp es] by (auto simp: setters)
qed

lemma hooks_not_terminal:
  assumes "\<not> is_terminal (status t)"
  shows "list_all (\<lambda>s. \<not> is_terminal (status s))
           (t # after_each t (concat (map (progress_hook pp) es)))"
proof (rule after_each_invariant [where P = "\<lambda>s::task. \<not> is_terminal (status s)"])
  show "\<not> is_terminal (status t)" by (rule assms)
next
  fix w and s :: task
  assume "w \<in> set (concat (map (progress_hook pp) es))" and "\<not> is_terminal (status s)"
  then show "\<not> is_terminal (status (w s))"
    using hook_write_cases [of w pp es] by (auto simp: setters is_terminal_def)
qed

lemma single_status_kept:
  "successively (\<lambda>a b. \<not> is_terminal (status a) \<or> status b = status a)
     (trace (download_video av eng run now task_id pp))"
proof (cases "truthy_id task_id")
  case False
  then show ?thesis by (simp add: trace_untracked)
next
  case True
  let ?h = "concat (map (progress_hook pp) (events run))"
  let ?i = "new_task now pp"
  have i: "\<not> is_terminal (status ?i)"
    by (simp add: new_task_def is_terminal_def)
  have 1: "successively (\<lambda>a b. \<not> is_terminal (status a) \<or> status b = status a)
             (?i # after_each ?i ?h)"
    by (rule successively_if_all [OF hooks_not_terminal [OF i]])
  have 2: "\<not> is_terminal (status (last (?i # after_each ?i ?h)))"
    using hooks_active_last [of now pp "events run"] by (rule active_not_terminal)
  show ?thesis
    by (simp only: trace_tracked [OF True] successively_after_each_append 1
        closing_status_kept [OF 2] simp_thms)
qed

lemma single_ends_terminal:
  "truthy_id task_id \<Longrightarrow> is_terminal (status (last (trace (download_video av eng run now task_id pp))))"
  by (simp only: trace_tracked last_after_each_append closing_terminal)

subsection \<open>The statuses a single download can hold\<close>

lemma closing_statuses:
  "list_all (\<lambda>s. status s \<in> set [''post_processing'', ''completed'', ''error''])
     (after_each t (closing_writes av eng run pp))"
  by (auto simp: closing_writes_def setters split: sum.splits prod.splits if_splits)

lemma list_all_mono:
  "list_all P xs \<Longrightarrow> (\<And>x. P x \<Longrightarrow> Q x) \<Longrightarrow> list_all Q xs"
  by (induction xs) auto

lemma single_statuses:
  "list_all (\<lambda>s. status s \<in> set [''starting'', ''downloading'', ''finished'',
       ''post_processing'', ''completed'', ''error''])
     (trace (download_video av eng run now task_id pp))"
proof (cases "truthy_id task_id")
  case False
  then show ?thesis by (simp add: trace_untracked)
next
  case True
  let ?h = "concat (map (progress_hook pp) (events run))"
  let ?i = "new_task now pp"
  let ?S = "\<lambda>s::task. status s \<in> set [''starting'', ''downloading'', ''finished'',
       ''post_processing'', ''completed'', ''error'']"
  have "status ?i \<in> set [''starting'', ''downloading'', ''finished'', ''post_processing'']"
    by (simp add: new_task_def)
  from hooks_keep_active [OF this, of pp "events run"]
  have 1: "list_all ?S (?i # after_each ?i ?h)"
    by (rule list_all_mono) auto
  have 2: "list_all ?S (after_each (last (?i # after_each ?i ?h)) (closing_writes av eng run pp))"
    by (rule list_all_mono [OF closing_statuses]) auto
  show ?thesis
    by (simp only: trace_tracked [OF True] list_all_after_each_append 1 2 simp_thms)
qed

lemma single_no_post_processing:
  "list_all (\<lambda>s. status s \<noteq> ''post_processing'')
     (trace (download_video av eng run now task_id None))"
proof (cases "truthy_id task_id")
  case False
  then show ?thesis by (simp add: trace_untracked)
next
  case True
  let ?h = "concat (map (progress_hook None) (events run))"
  let ?i = "new_task now None"
  have 1: "list_all (\<lambda>s. status s \<noteq> ''post_processing'') (?i # after_each ?i ?h)"
  proof (rule after_each_invariant [where P = "\<lambda>s::task. status s \<noteq> ''post_processing''"])
    show "status ?i \<noteq> ''post_processing''" by (simp add: new_task_def)
  next
    fix w and s :: task
    assume "w \<in> set ?h" and "status s \<noteq> ''post_processing''"
    then show "status (w s) \<noteq> ''post_processing''"
      using hook_write_cases [of w None "events run"] by (auto simp: setters truthy_pp_def)
  qed
  have 2: "list_all (\<lambda>s. status s \<noteq> ''post_processing'')
             (after_each t (closing_writes av eng run None))" for t
    by (auto simp: closing_writes_def setters truthy_pp_def split: sum.splits prod.splits)
  show ?thesis
    by (simp only: trace_tracked [OF True] list_all_after_each_append 1 2 simp_thms)
qed

lemma single_without_checkpoint:
  assumes "\<not> truthy_pp pp"
  shows "list_all (\<lambda>s. status s \<noteq> ''post_processing'')
     (trace (download_video av eng run now task_id pp))"
proof (cases "truthy_id task_id")
  case False
  then show ?thesis by (simp add: trace_untracked)
next
  case True
  let ?h = "concat (map (progress_hook pp) (events run))"
  let ?i = "new_task now pp"
  have 1: "list_all (\<lambda>s. status s \<noteq> ''post_processing'') (?i # after_each ?i ?h)"
  proof (rule after_each_invariant [where P = "\<lambda>s::task. status s \<noteq> ''post_processing''"])
    show "status ?i \<noteq> ''post_processing''" by (simp add: new_task_def)
  next
    fix w and s :: task
    assume "w \<in> set ?h" and "status s \<noteq> ''post_processing''"
    then show "status (w s) \<noteq> ''post_processing''"
      using hook_write_cases [of w pp "events run"] assms by (auto simp: setters)
  qed
  have 2: "list_all (\<lambda>s. status s \<noteq> ''post_processing'')
             (after_each t (closing_writes av eng run pp))" for t
    using assms by (auto simp: closing_writes_def setters split: sum.splits prod.splits)
  show ?thesis
    by (simp only: trace_tracked [OF True] list_all_after_each_append 1 2 simp_thms)
qed

subsection \<open>The order of the statuses\<close>

lemma step_refl: "status_step a a"
  by (simp add: status_step_def)

lemma step_error:
  "a \<in> set [''starting'', ''downloading'', ''finished'', ''post_processing''] \<Longrightarrow> status_step a ''error''"
  by (auto simp: status_step_def is_terminal_def)

lemma step_downloading:
  "a \<in> set [''starting'', ''downloading''] \<Longrightarrow> status_step a ''downloading''"
  by (auto simp: status_step_def is_terminal_def status_rank_def)

lemma step_post_processing:
  "a \<in> set [''starting'', ''downloading'', ''post_processing''] \<Longrightarrow> status_step a ''post_processing''"
  by (auto simp: status_step_def is_terminal_def status_rank_def)

lemma step_finished:
  "a \<in> set [''starting'', ''downloading'', ''finished''] \<Longrightarrow> status_step a ''finished''"
  by (auto simp: status_step_def is_terminal_def status_rank_def)

lemma step_completed:
  "a \<in> set [''starting'', ''downloading'', ''finished'', ''post_processing''] \<Longrightarrow> status_step a ''completed''"
  by (auto simp: status_step_def is_terminal_def status_rank_def)

lemma hook_downloading_order:
  assumes "status t = ''starting'' \<or> status t = ''downloading''"
  shows "successively (\<lambda>a b. status_step (status a) (status b))
           (t # after_each t (progress_hook pp (Downloading (Some p) fname)))"
    and "status (last (t # after_each t (progress_hook pp (Downloading (Some p) fname)))) = ''downloading''"
proof -
  from assms have "status_step (status t) ''downloading''"
    by (intro step_downloading) auto
  then show "successively (\<lambda>a b. status_step (status a) (status b))
           (t # after_each t (progress_hook pp (Downloading (Some p) fname)))"
    by (simp add: setters step_refl)
  show "status (last (t # after_each t (progress_hook pp (Downloading (Some p) fname)))) = ''downloading''"
    by (simp add: setters)
qed

lemma hook_finished_order:
  assumes "status t = ''starting'' \<or> status t = ''downloading''
           \<or> status t = (if truthy_pp pp then ''post_processing'' else ''finished'')"
  shows "successively (\<lambda>a b. status_step (status a) (status b))
           (t # after_each t (progress_hook pp (Finished fname)))"
    and "status (last (t # after_each t (progress_hook pp (Finished fname))))
           = (if truthy_pp pp then ''post_processing'' else ''finished'')"
proof -
  show "successively (\<lambda>a b. status_step (status a) (status b))
           (t # after_each t (progress_hook pp (Finished fname)))"
  proof (cases "truthy_pp pp")
    case True
    with assms have "status_step (status t) ''post_processing''"
      by (intro step_post_processing) auto
    with True show ?thesis by (simp add: setters step_refl)
  next
    case False
    with assms have "status_step (status t) ''finished''"
      by (intro step_finished) auto
    with False show ?thesis by (simp add: setters step_refl)
  qed
  show "status (last (t # after_each t (progress_hook pp (Finished fname))))
           = (if truthy_pp pp then ''post_processing'' else ''finished'')"
    by (simp add: setters)
qed

lemma hooks_order:
  assumes "fetch_before_finish fin es"
    and "if fin then status t = (if truthy_pp pp then ''post_processing'' else ''finished'')
         else status t = ''starting'' \<or> status t = ''downloading''"
  shows "successively (\<lambda>a b. status_step (status a) (status b))
           (t # after_each t (concat (map (progress_hook pp) es)))
         \<and> (status (last (t # after_each t (concat (map (progress_hook pp) es)))) = ''starting''
            \<or> status (last (t # after_each t (concat (map (progress_hook pp) es)))) = ''downloading''
            \<or> status (last (t # after_each t (concat (map (progress_hook pp) es))))
                = (if truthy_pp pp then ''post_processing'' else ''finished''))"
  using assms
proof (induction fin es arbitrary: t rule: fetch_before_finish.induct)
  case (1 fin)
  then show ?case by (cases fin; cases "truthy_pp pp"; auto)
next
  case (2 fin fname es)
  then show ?case by simp
next
  case (3 fin p fname es)
  let ?e = "progress_hook pp (Downloading (Some p) fname)"
  let ?t' = "last (t # after_each t ?e)"
  from "3.prems" have nf: "\<not> fin" and o: "fetch_before_finish fin es" by auto
  from "3.prems"(2) nf have st: "status t = ''starting'' \<or> status t = ''downloading''" by simp
  note h = hook_downloading_order [OF st, of pp p fname]
  have inv: "if fin then status ?t' = (if truthy_pp pp then ''post_processing'' else ''finished'')
             else status ?t' = ''starting'' \<or> status ?t' = ''downloading''"
    using nf h(2) by simp
  have "concat (map (progress_hook pp) (Downloading (Some p) fname # es))
          = ?e @ concat (map (progress_hook pp) es)" by simp
  with "3.IH" [OF o inv] h(1) show ?case
    by (simp only: successively_after_each_append last_after_each_append simp_thms)
next
  case (4 fin fname es)
  let ?e = "progress_hook pp (Finished fname)"
  let ?t' = "last (t # after_each t ?e)"
  from "4.prems" have o: "fetch_before_finish True es" by simp
  have st: "status t = ''starting'' \<or> status t = ''downloading''
           \<or> status t = (if truthy_pp pp then ''post_processing'' else ''finished'')"
    using "4.prems"(2) by (cases fin; cases "truthy_pp pp"; auto)
  note h = hook_finished_order [OF st, of fname]
  have inv: "if True then status ?t' = (if truthy_pp pp then ''post_processing'' else ''finished'')
             else status ?t' = ''starting'' \<or> status ?t' = ''downloading''"
    using h(2) by simp
  have "concat (map (progress_hook pp) (Finished fname # es))
          = ?e @ concat (map (progress_hook pp) es)" by simp
  with "4.IH" [OF o inv] h(1) show ?case
    by (simp only: successively_after_each_append last_after_each_append simp_thms)
next
  case (5 fin es)
  then show ?case by simp
qed

lemma closing_order:
  assumes "status s = ''starting'' \<or> status s = ''downloading''
           \<or> status s = (if truthy_pp pp then ''post_processing'' else ''finished'')"
  shows "successively (\<lambda>a b. status_step (status a) (status b))
           (s # after_each s (closing_writes av eng run pp))"
proof -
  from assms have act: "status s \<in> set [''starting'', ''downloading'', ''finished'', ''post_processing'']"
    by (cases "truthy_pp pp") auto
  show ?thesis
  proof (cases "outcome run")
    case (Inl e)
    with step_error [OF act] show ?thesis
      by (simp add: closing_writes_def setters step_refl)
  next
    case (Inr ft)
    obtain fname title where ft: "ft = (fname, title)" by (cases ft)
    show ?thesis
    proof (cases "truthy_pp pp \<and> av")
      case True
      with assms have "status_step (status s) ''post_processing''"
        by (intro step_post_processing) auto
      moreover have "status_step ''post_processing'' ''completed''"
        by (intro step_completed) simp
      ultimately show ?thesis using True Inr ft
        by (simp add: closing_writes_def setters step_refl)
    next
      case False
      with Inr ft have "closing_writes av eng run pp
          = [set_status ''completed'', set_filename fname, set_progress 100]"
        by (auto simp: closing_writes_def)
      with step_completed [OF act] show ?thesis
        by (simp add: setters step_refl)
    qed
  qed
qed

lemma single_order:
  assumes "fetch_before_finish False (events run)"
  shows "successively (\<lambda>a b. status_step (status a) (status b))
           (trace (download_video av eng run now task_id pp))"
proof (cases "truthy_id task_id")
  case False
  then show ?thesis by (simp add: trace_untracked)
next
  case True
  have "if False then status (new_task now pp) = (if truthy_pp pp then ''post_processing'' else ''finished'')
        else status (new_task now pp) = ''starting'' \<or> status (new_task now pp) = ''downloading''"
    by (simp add: new_task_def)
  from hooks_order [OF assms this]
  show ?thesis
    by (simp only: trace_tracked [OF True] successively_after_each_append closing_order simp_thms)
qed

subsection \<open>The trace of a batch\<close>

lemma batch_loop_ok:
  assumes "returned (download_video av eng run now None pp) = Inr (fname, title)"
  shows "fst (batch_loop av eng now pp True n i ((url, run) # rest)) =
           [set_status (''downloading '' @ str_nat (i + 1) @ ''/'' @ str_nat n),
            set_completed_files (i + 1),
            set_progress ((of_nat (i + 1) / of_nat n) * 100),
            append_file (FileCompleted title)]
           @ fst (batch_loop av eng now pp True n (i + 1) rest)"
  using assms by (simp add: Let_def split: prod.splits)

lemma batch_loop_failed:
  assumes "returned (download_video av eng run now None pp) = Inl e"
  shows "fst (batch_loop av eng now pp True n i ((url, run) # rest)) =
           [set_status (''downloading '' @ str_nat (i + 1) @ ''/'' @ str_nat n),
            append_error (url, e), append_file (FileError url e)]
           @ fst (batch_loop av eng now pp True n (i + 1) rest)"
  using assms by (simp add: Let_def split: prod.splits)

lemma batch_trace_tracked:
  "truthy_id task_id \<Longrightarrow>
   batch_trace (batch_download av eng now urls task_id pp) =
     new_batch_task now (length urls) pp #
       after_each (new_batch_task now (length urls) pp)
         (fst (batch_loop av eng now pp True (length urls) 0 urls)
          @ [set_status ''completed'', set_progress 100])"
  by (simp add: batch_download_def Let_def split: prod.splits)

lemma batch_write_cases:
  assumes "w \<in> set (fst (batch_loop av eng now pp True n i urls))"
  shows "(\<exists>k. w = set_status (''downloading '' @ str_nat k @ ''/'' @ str_nat n))
         \<or> (\<exists>k. w = set_completed_files k) \<or> (\<exists>p. w = set_progress p)
         \<or> (\<exists>e. w = append_file e) \<or> (\<exists>e. w = append_error e)"
  using assms
proof (induction urls arbitrary: i)
  case Nil
  then show ?case by simp
next
  case (Cons item rest)
  obtain url run where item: "item = (url, run)" by (cases item)
  show ?case
  proof (cases "returned (download_video av eng run now None pp)")
    case (Inl e)
    from Cons.prems consider
      "w \<in> set [set_status (''downloading '' @ str_nat (i + 1) @ ''/'' @ str_nat n),
            append_error (url, e), append_file (FileError url e)]"
      | "w \<in> set (fst (batch_loop av eng now pp True n (i + 1) rest))"
      unfolding item batch_loop_failed [OF Inl] by auto
    then show ?thesis
    proof cases
      case 1
      then show ?thesis by (simp only: set_simps insert_iff empty_iff) blast
    next
      case 2
      from Cons.IH [OF 2] show ?thesis by blast
    qed
  next
    case (Inr ft)
    obtain fname title where ft: "ft = (fname, title)" by (cases ft)
    from Cons.prems consider
      "w \<in> set [set_status (''downloading '' @ str_nat (i + 1) @ ''/'' @ str_nat n),
            set_completed_files (i + 1),
            set_progress ((of_nat (i + 1) / of_nat n) * 100),
            append_file (FileCompleted title)]"
      | "w \<in> set (fst (batch_loop av eng now pp True n (i + 1) rest))"
      unfolding item batch_loop_ok [OF Inr [unfolded ft]] by auto
    then show ?thesis
    proof cases
      case 1
      then show ?thesis by (simp only: set_simps insert_iff empty_iff) blast
    next
      case 2
      from Cons.IH [OF 2] show ?thesis by blast
    qed
  qed
qed

lemma batch_loop_keeps:
  assumes "P t"
    and "\<And>k s. P s \<Longrightarrow> P (set_status (''downloading '' @ str_nat k @ ''/'' @ str_nat n) s)"
    and "\<And>k s. P s \<Longrightarrow> P (set_completed_files k s)"
    and "\<And>p s. P s \<Longrightarrow> P (set_progress p s)"
    and "\<And>e s. P s \<Longrightarrow> P (append_file e s)"
    and "\<And>e s. P s \<Longrightarrow> P (append_error e s)"
  shows "list_all P (t # after_each t (fst (batch_loop av eng now pp True n i urls)))"
proof (rule after_each_invariant [where P = P, OF assms(1)])
  fix w and s :: task
  assume "w \<in> set (fst (batch_loop av eng now pp True n i urls))" and "P s"
  with batch_write_cases [of w av eng now pp n i urls] assms(2-6)
  show "P (w s)" by blast
qed

lemma last_list_all: "list_all P (x # xs) \<Longrightarrow> P (last (x # xs))"
  unfolding list_all_iff using last_in_set [of "x # xs"] by blast

lemma batch_filename_absent:
  assumes "truthy_id task_id"
  shows "list_all (\<lambda>s. filename s = None) (batch_trace (batch_download av eng now urls task_id pp))"
proof -
  let ?i = "new_batch_task now (length urls) pp"
  have 1: "list_all (\<lambda>s. filename s = None)
             (?i # after_each ?i (fst (batch_loop av eng now pp True (length urls) 0 urls)))"
    by (rule batch_loop_keeps) (simp_all add: new_batch_task_def setters)
  from last_list_all [OF 1]
  have 2: "list_all (\<lambda>s. filename s = None)
     (after_each (last (?i # after_each ?i (fst (batch_loop av eng now pp True (length urls) 0 urls))))
        [set_status ''completed'', set_progress 100])"
    by (simp add: setters)
  show ?thesis
    by (simp only: batch_trace_tracked [OF assms] list_all_after_each_append 1 2 simp_thms)
qed

lemma batch_statuses:
  assumes "truthy_id task_id"
  shows "list_all (\<lambda>s. status s = ''starting'' \<or> status s = ''completed'' \<or>
             (\<exists>k. status s = ''downloading '' @ str_nat k @ ''/'' @ str_nat (length urls)))
           (batch_trace (batch_download av eng now urls task_id pp))"
proof -
  let ?i = "new_batch_task now (length urls) pp"
  let ?P = "\<lambda>s::task. status s = ''starting'' \<or> status s = ''completed'' \<or>
             (\<exists>k. status s = ''downloading '' @ str_nat k @ ''/'' @ str_nat (length urls))"
  have 1: "list_all ?P
             (?i # after_each ?i (fst (batch_loop av eng now pp True (length urls) 0 urls)))"
  proof (rule batch_loop_keeps [where P = ?P])
    show "?P ?i" by (simp add: new_batch_task_def)
    show "?P (set_status (''downloading '' @ str_nat k @ ''/'' @ str_nat (length urls)) s)"
      for k s by (auto simp: set_status_def)
  qed (simp_all add: setters)
  have 2: "list_all ?P (after_each t [set_status ''completed'', set_progress 100])" for t
    by (simp add: setters)
  show ?thesis
    by (simp only: batch_trace_tracked [OF assms] list_all_after_each_append 1 2 simp_thms)
qed

lemma batch_active:
  "list_all (\<lambda>s. \<not> is_terminal (status s) \<and> status s \<noteq> ''post_processing'')
     (new_batch_task now n pp # after_each (new_batch_task now n pp)
        (fst (batch_loop av eng now pp True n i urls)))"
  by (rule batch_loop_keeps) (simp_all add: new_batch_task_def setters is_terminal_def)

lemma batch_no_post_processing:
  "list_all (\<lambda>s. status s \<noteq> ''post_processing'')
     (batch_trace (batch_download av eng now urls task_id pp))"
proof (cases "truthy_id task_id")
  case False
  then show ?thesis by (simp add: batch_download_def Let_def split: prod.splits)
next
  case True
  let ?i = "new_batch_task now (length urls) pp"
  have 1: "list_all (\<lambda>s. status s \<noteq> ''post_processing'')
             (?i # after_each ?i (fst (batch_loop av eng now pp True (length urls) 0 urls)))"
    by (rule list_all_mono [OF batch_active]) simp
  have 2: "list_all (\<lambda>s. status s \<noteq> ''post_processing'')
             (after_each t [set_status ''completed'', set_progress 100])" for t
    by (simp add: setters)
  show ?thesis
    by (simp only: batch_trace_tracked [OF True] list_all_after_each_append 1 2 simp_thms)
qed

lemma batch_status_kept:
  "successively (\<lambda>a b. \<not> is_terminal (status a) \<or> status b = status a)
     (batch_trace (batch_download av eng now urls task_id pp))"
proof (cases "truthy_id task_id")
  case False
  then show ?thesis by (simp add: batch_download_def Let_def split: prod.splits)
next
  case True
  let ?i = "new_batch_task now (length urls) pp"
  let ?l = "fst (batch_loop av eng now pp True (length urls) 0 urls)"
  have a: "list_all (\<lambda>s. \<not> is_terminal (status s)) (?i # after_each ?i ?l)"
    by (rule list_all_mono [OF batch_active]) simp
  have 1: "successively (\<lambda>a b. \<not> is_terminal (status a) \<or> status b = status a)
             (?i # after_each ?i ?l)"
    by (rule successively_if_all [OF a])
  have 2: "successively (\<lambda>a b. \<not> is_terminal (status a) \<or> status b = status a)
             (last (?i # after_each ?i ?l)
              # after_each (last (?i # after_each ?i ?l)) [set_status ''completed'', set_progress 100])"
    using last_list_all [OF a] by (simp add: setters)
  show ?thesis
    by (simp only: batch_trace_tracked [OF True] successively_after_each_append 1 2 simp_thms)
qed

lemma batch_ends_completed:
  assumes "truthy_id task_id"
  shows "status (last (batch_trace (batch_download av eng now urls task_id pp))) = ''completed''"
    and "progress (last (batch_trace (batch_download av eng now urls task_id pp))) = 100"
  by (simp_all only: batch_trace_tracked [OF assms] last_after_each_append)
    (simp_all add: setters)

subsection \<open>Progress of a batch\<close>

lemma share_le_next: "(of_nat i / of_nat n) * 100 \<le> ((of_nat (i + 1) / of_nat n) * 100 :: rat)"
  by (simp add: divide_right_mono)

lemma share_le_100: "i \<le> n \<Longrightarrow> (of_nat i / of_nat n) * 100 \<le> (100 :: rat)"
proof -
  assume "i \<le> n"
  then have "(of_nat i :: rat) \<le> of_nat n" by simp
  then have "(of_nat i / of_nat n :: rat) \<le> 1"
    by (cases "n = 0") (simp_all add: divide_le_eq_1)
  then have "(of_nat i / of_nat n) * 100 \<le> (1 * 100 :: rat)"
    by (intro mult_right_mono) simp_all
  then show ?thesis by (simp only: mult_1)
qed

lemma batch_loop_progress:
  assumes "i + length urls \<le> n" and "progress t \<le> (of_nat i / of_nat n) * 100"
  shows "successively (\<lambda>a b. progress a \<le> progress b)
           (t # after_each t (fst (batch_loop av eng now pp True n i urls)))
         \<and> progress (last (t # after_each t (fst (batch_loop av eng now pp True n i urls)))) \<le> 100"
  using assms
proof (induction urls arbitrary: i t)
  case Nil
  then have "i \<le> n" by simp
  from share_le_100 [OF this] Nil.prems(2) show ?case by simp
next
  case (Cons item rest)
  obtain url run where item: "item = (url, run)" by (cases item)
  from Cons.prems(1) have len: "(i + 1) + length rest \<le> n" by simp
  from Cons.prems(2) share_le_next [of i n]
  have le: "progress t \<le> (of_nat (i + 1) / of_nat n) * 100" by (rule order_trans)
  show ?case
  proof (cases "returned (download_video av eng run now None pp)")
    case (Inl e)
    let ?t' = "append_file (FileError url e) (append_error (url, e)
                 (set_status (''downloading '' @ str_nat (i + 1) @ ''/'' @ str_nat n) t))"
    have "progress ?t' \<le> (of_nat (i + 1) / of_nat n) * 100"
      using le by (simp add: setters)
    from Cons.IH [OF len this] show ?thesis
      unfolding item batch_loop_failed [OF Inl]
      by (simp add: setters successively_Cons)
  next
    case (Inr ft)
    obtain fname title where ft: "ft = (fname, title)" by (cases ft)
    let ?t' = "append_file (FileCompleted title) (set_progress ((of_nat (i + 1) / of_nat n) * 100)
                 (set_completed_files (i + 1)
                   (set_status (''downloading '' @ str_nat (i + 1) @ ''/'' @ str_nat n) t)))"
    have "progress ?t' \<le> (of_nat (i + 1) / of_nat n) * 100"
      by (simp add: setters)
    from Cons.IH [OF len this] le show ?thesis
      unfolding item batch_loop_ok [OF Inr [unfolded ft]]
      by (simp add: setters successively_Cons)
  qed
qed

lemma batch_progress_sorted:
  assumes "truthy_id task_id"
  shows "successively (\<lambda>a b. progress a \<le> progress b)
           (batch_trace (batch_download av eng now urls task_id pp))"
proof -
  let ?i = "new_batch_task now (length urls) pp"
  let ?l = "fst (batch_loop av eng now pp True (length urls) 0 urls)"
  have "progress ?i \<le> (of_nat 0 / of_nat (length urls)) * 100"
    by (simp add: new_batch_task_def)
  from batch_loop_progress [OF _ this, of urls av eng now pp]
  have 1: "successively (\<lambda>a b. progress a \<le> progress b) (?i # after_each ?i ?l)"
    and 2: "progress (last (?i # after_each ?i ?l)) \<le> 100"
    by simp_all
  from 2 have 3: "successively (\<lambda>a b. progress a \<le> progress b)
       (last (?i # after_each ?i ?l)
        # after_each (last (?i # after_each ?i ?l)) [set_status ''completed'', set_progress 100])"
    by (simp add: setters)
  show ?thesis
    by (simp only: batch_trace_tracked [OF assms] successively_after_each_append 1 3 simp_thms)
qed

subsection \<open>The final value of a single download\<close>

lemma set_after_each_append:
  "set (after_each t (ws @ vs)) =
     set (after_each t ws) \<union> set (after_each (last (t # after_each t ws)) vs)"
  by (induction ws arbitrary: t) auto

lemma hooks_reach_checkpoint:
  assumes "Finished fname \<in> set es" and "truthy_pp pp"
  shows "\<exists>s \<in> set (after_each t (concat (map (progress_hook pp) es))).
           status s = ''post_processing'' \<and> progress s = 70"
  using assms(1)
proof (induction es arbitrary: t)
  case Nil
  then show ?case by simp
next
  case (Cons e es)
  have split: "set (after_each t (concat (map (progress_hook pp) (e # es)))) =
     set (after_each t (progress_hook pp e))
     \<union> set (after_each (last (t # after_each t (progress_hook pp e)))
         (concat (map (progress_hook pp) es)))"
    by (simp add: set_after_each_append)
  show ?case
  proof (cases "e = Finished fname")
    case True
    let ?s = "set_progress 70 (set_status ''post_processing'' t)"
    have "?s \<in> set (after_each t (progress_hook pp e))"
      using True assms(2) by simp
    moreover have "status ?s = ''post_processing'' \<and> progress ?s = 70"
      by (simp add: setters)
    ultimately show ?thesis unfolding split by blast
  next
    case False
    with Cons.prems have "Finished fname \<in> set es" by simp
    from Cons.IH [OF this] show ?thesis unfolding split by blast
  qed
qed

lemma closing_ok:
  assumes "outcome run = Inr (fname, title)"
  shows "closing_writes av eng run pp =
           (if truthy_pp pp \<and> av then
              [set_status ''post_processing'', set_progress 75, set_progress 100,
               set_status ''completed'',
               set_filename (fst (apply_post_processing av eng fname pp))]
            else [set_status ''completed'', set_filename fname, set_progress 100])"
  using assms by (simp add: closing_writes_def)

lemma single_final_ok:
  assumes "truthy_id task_id" and "outcome run = Inr (fname, title)"
  shows "status (last (trace (download_video av eng run now task_id pp))) = ''completed''"
    and "progress (last (trace (download_video av eng run now task_id pp))) = 100"
    and "filename (last (trace (download_video av eng run now task_id pp))) =
           Some (if truthy_pp pp \<and> av then fst (apply_post_processing av eng fname pp) else fname)"
  by (simp_all only: trace_tracked [OF assms(1)] last_after_each_append closing_ok [OF assms(2)])
    (simp_all add: setters)

lemma single_final_error:
  assumes "truthy_id task_id" and "outcome run = Inl e"
  shows "status (last (trace (download_video av eng run now task_id pp))) = ''error''"
    and "error (last (trace (download_video av eng run now task_id pp))) = Some (Some e)"
  by (simp_all only: trace_tracked [OF assms(1)] last_after_each_append)
    (simp_all add: closing_writes_def assms(2) setters)

lemma single_no_error:
  assumes "outcome run = Inr (fname, title)"
  shows "list_all (\<lambda>s. status s \<noteq> ''error'' \<and> error s = Some None)
           (trace (download_video av eng run now task_id pp))"
proof (cases "truthy_id task_id")
  case False
  then show ?thesis by (simp add: trace_untracked)
next
  case True
  let ?h = "concat (map (progress_hook pp) (events run))"
  let ?i = "new_task now pp"
  let ?P = "\<lambda>s::task. status s \<noteq> ''error'' \<and> error s = Some None"
  have 1: "list_all ?P (?i # after_each ?i ?h)"
  proof (rule after_each_invariant [where P = ?P])
    show "?P ?i" by (simp add: new_task_def)
  next
    fix w and s :: task
    assume "w \<in> set ?h" and "?P s"
    then show "?P (w s)"
      using hook_write_cases [of w pp "events run"] by (auto simp: setters)
  qed
  from last_list_all [OF 1]
  have 2: "list_all ?P (after_each (last (?i # after_each ?i ?h)) (closing_writes av eng run pp))"
    by (simp add: closing_ok [OF assms] setters)
  show ?thesis
    by (simp only: trace_tracked [OF True] list_all_after_each_append 1 2 simp_thms)
qed

lemma returned_ok:
  assumes "outcome run = Inr (fname, title)"
  shows "returned (download_video av eng run now task_id pp) =
           Inr (if truthy_pp pp \<and> av then fst (apply_post_processing av eng fname pp) else fname,
                title)"
    and "calls (download_video av eng run now task_id pp) =
           (if truthy_pp pp \<and> av then snd (apply_post_processing av eng fname pp) else [])"
  using assms by (simp_all add: download_video_def Let_def split: prod.splits)

lemma returned_failed:
  assumes "outcome run = Inl e"
  shows "returned (download_video av eng run now task_id pp) = Inl (''Error downloading video: '' @ e)"
  using assms by (simp add: download_video_def Let_def)

lemma failed_post_processing:
  assumes "(\<exists>s. pp = Some (PresetName s)) \<or>
           (\<exists>kv c e. pp = Some (Config kv) \<and> select_call fname kv = Some c \<and> eng c = Inl e)"
  shows "fst (apply_post_processing av eng fname pp) = fname"
  using assms by (auto simp: apply_post_processing_def run_ffmpeg_def)

lemma single_reaches_checkpoint:
  assumes "truthy_id task_id" and "truthy_pp pp" and "Finished f \<in> set (events run)"
  shows "\<exists>s \<in> set (trace (download_video av eng run now task_id pp)).
           status s = ''post_processing'' \<and> progress s = 70"
proof -
  from hooks_reach_checkpoint [OF assms(3) assms(2), of "new_task now pp"]
  obtain s where "s \<in> set (after_each (new_task now pp) (concat (map (progress_hook pp) (events run))))"
    and s: "status s = ''post_processing'' \<and> progress s = 70" by blast
  then have "s \<in> set (trace (download_video av eng run now task_id pp))"
    by (simp add: trace_tracked [OF assms(1)] set_after_each_append)
  with s show ?thesis by blast
qed

lemmas run_defs = download_video_def closing_writes_def new_task_def truthy_id_def truthy_pp_def
  apply_post_processing_def select_call_def get_or_def run_ffmpeg_def Let_def

subsection \<open>How many values of a task are terminal\<close>

lemma batch_trace_untracked:
  "\<not> truthy_id task_id \<Longrightarrow> batch_trace (batch_download av eng now urls task_id pp) = []"
  by (simp add: batch_download_def Let_def split: prod.splits)

lemma filter_after_each_append:
  "filter P (t # after_each t (ws @ vs)) =
     filter P (t # after_each t ws) @ filter P (after_each (last (t # after_each t ws)) vs)"
  by (induction ws arbitrary: t) auto

lemma no_terminal_filter:
  "list_all (\<lambda>s. \<not> is_terminal (status s)) xs \<Longrightarrow> filter (\<lambda>s. is_terminal (status s)) xs = []"
  by (simp add: list_all_iff)

lemma closing_terminal_count:
  "\<not> is_terminal (status s) \<Longrightarrow>
   length (filter (\<lambda>s. is_terminal (status s)) (after_each s (closing_writes av eng run pp))) \<le> 3"
  by (auto simp: closing_writes_def setters is_terminal_def split: sum.splits prod.splits)

lemma single_terminal_count:
  "length (filter (\<lambda>s. is_terminal (status s)) (trace (download_video av eng run now task_id pp))) \<le> 3"
proof (cases "truthy_id task_id")
  case False
  then show ?thesis by (simp add: trace_untracked)
next
  case True
  let ?h = "concat (map (progress_hook pp) (events run))"
  let ?i = "new_task now pp"
  have i: "\<not> is_terminal (status ?i)"
    by (simp add: new_task_def is_terminal_def)
  have 1: "filter (\<lambda>s. is_terminal (status s)) (?i # after_each ?i ?h) = []"
    by (rule no_terminal_filter [OF hooks_not_terminal [OF i]])
  have 2: "\<not> is_terminal (status (last (?i # after_each ?i ?h)))"
    using hooks_active_last [of now pp "events run"] by (rule active_not_terminal)
  show ?thesis
    by (simp only: trace_tracked [OF True] filter_after_each_append 1 append_Nil
        closing_terminal_count [OF 2])
qed

lemma batch_terminal_count:
  "length (filter (\<lambda>s. is_terminal (status s))
     (batch_trace (batch_download av eng now urls task_id pp))) \<le> 3"
proof (cases "truthy_id task_id")
  case False
  then show ?thesis by (simp add: batch_trace_untracked)
next
  case True
  let ?i = "new_batch_task now (length urls) pp"
  let ?l = "fst (batch_loop av eng now pp True (length urls) 0 urls)"
  have a: "list_all (\<lambda>s. \<not> is_terminal (status s)) (?i # after_each ?i ?l)"
    by (rule list_all_mono [OF batch_active]) simp
  have 1: "filter (\<lambda>s. is_terminal (status s)) (?i # after_each ?i ?l) = []"
    by (rule no_terminal_filter [OF a])
  have 2: "length (filter (\<lambda>s. is_terminal (status s))
      (after_each t [set_status ''completed'', set_progress 100])) \<le> 3" for t
    by simp
  show ?thesis
    by (simp only: batch_trace_tracked [OF True] filter_after_each_append 1 append_Nil 2)
qed

lemma sorted_progress_never_regresses:
  "successively (\<lambda>a b. progress a \<le> progress b) ts \<Longrightarrow> progress_never_regresses ts"
  unfolding progress_never_regresses_def by (erule successively_mono) simp

subsection \<open>What a batch does leave behind\<close>

text \<open>
  The parts of the batch contract that hold for every batch: the final status, the
  lengths of \<^verbatim>\<open>files\<close> and \<^verbatim>\<open>errors\<close>, and, after every prefix of the URLs, the
  agreement of \<^verbatim>\<open>progress\<close> with \<^verbatim>\<open>completed_files\<close>. An item fails exactly when
  the retrieval engine raises on it.
\<close>

lemma returned_isl:
  "isl (returned (download_video av eng run now task_id pp)) = isl (outcome run)"
  by (cases "outcome run") (auto simp: download_video_def Let_def split: prod.splits)

lemma batch_loop_append:
  "fst (batch_loop av eng now pp True n i (xs @ ys)) =
     fst (batch_loop av eng now pp True n i xs)
     @ fst (batch_loop av eng now pp True n (i + length xs) ys)"
proof (induction xs arbitrary: i)
  case Nil
  then show ?case by simp
next
  case (Cons item rest)
  obtain url run where item: "item = (url, run)" by (cases item)
  show ?case
  proof (cases "returned (download_video av eng run now None pp)")
    case (Inl e)
    show ?thesis
      using Cons.IH [of "i + 1"]
      by (simp only: item append_Cons batch_loop_failed [OF Inl] append_assoc length_Cons)
        (simp add: add.commute add.left_commute)
  next
    case (Inr ft)
    obtain fname title where ft: "ft = (fname, title)" by (cases ft)
    show ?thesis
      using Cons.IH [of "i + 1"]
      by (simp only: item append_Cons batch_loop_ok [OF Inr [unfolded ft]] append_assoc length_Cons)
        (simp add: add.commute add.left_commute)
  qed
qed

lemma batch_loop_lists:
  assumes "files t = Some fs" and "errors t = Some es"
  shows "map_option length
           (files (last (t # after_each t (fst (batch_loop av eng now pp True n i urls)))))
           = Some (length fs + length urls)
         \<and> map_option length
           (errors (last (t # after_each t (fst (batch_loop av eng now pp True n i urls)))))
           = Some (length es + length (filter (\<lambda>item. isl (outcome (snd item))) urls))"
  using assms
proof (induction urls arbitrary: i t fs es)
  case Nil
  then show ?case by simp
next
  case (Cons item rest)
  obtain url run where item: "item = (url, run)" by (cases item)
  show ?case
  proof (cases "returned (download_video av eng run now None pp)")
    case (Inl e)
    let ?t' = "append_file (FileError url e) (append_error (url, e)
                 (set_status (''downloading '' @ str_nat (i + 1) @ ''/'' @ str_nat n) t))"
    from Inl returned_isl [of av eng run now None pp] have isl: "isl (outcome run)" by simp
    have f: "files ?t' = Some (fs @ [FileError url e])" and e: "errors ?t' = Some (es @ [(url, e)])"
      using Cons.prems by (simp_all add: setters)
    from Cons.IH [OF f e, of "i + 1"] isl show ?thesis
      unfolding item batch_loop_failed [OF Inl] by (simp add: setters)
  next
    case (Inr ft)
    obtain fname title where ft: "ft = (fname, title)" by (cases ft)
    let ?t' = "append_file (FileCompleted title) (set_progress ((of_nat (i + 1) / of_nat n) * 100)
                 (set_completed_files (i + 1)
                   (set_status (''downloading '' @ str_nat (i + 1) @ ''/'' @ str_nat n) t)))"
    from Inr returned_isl [of av eng run now None pp] have isl: "\<not> isl (outcome run)" by simp
    have f: "files ?t' = Some (fs @ [FileCompleted title])" and e: "errors ?t' = Some es"
      using Cons.prems by (simp_all add: setters)
    from Cons.IH [OF f e, of "i + 1"] isl show ?thesis
      unfolding item batch_loop_ok [OF Inr [unfolded ft]] by (simp add: setters)
  qed
qed

lemma batch_loop_counter:
  assumes "completed_files t = Some c" and "progress t = (of_nat c / of_nat n) * 100"
  shows "\<exists>c'. completed_files (last (t # after_each t (fst (batch_loop av eng now pp True n i urls))))
              = Some c'
           \<and> progress (last (t # after_each t (fst (batch_loop av eng now pp True n i urls))))
              = (of_nat c' / of_nat n) * 100"
  using assms
proof (induction urls arbitrary: i t c)
  case Nil
  then show ?case by simp
next
  case (Cons item rest)
  obtain url run where item: "item = (url, run)" by (cases item)
  show ?case
  proof (cases "returned (download_video av eng run now None pp)")
    case (Inl e)
    let ?t' = "append_file (FileError url e) (append_error (url, e)
                 (set_status (''downloading '' @ str_nat (i + 1) @ ''/'' @ str_nat n) t))"
    have c: "completed_files ?t' = Some c" and p: "progress ?t' = (of_nat c / of_nat n) * 100"
      using Cons.prems by (simp_all add: setters)
    from Cons.IH [OF c p, of "i + 1"] show ?thesis
      unfolding item batch_loop_failed [OF Inl] by (simp add: setters)
  next
    case (Inr ft)
    obtain fname title where ft: "ft = (fname, title)" by (cases ft)
    let ?t' = "append_file (FileCompleted title) (set_progress ((of_nat (i + 1) / of_nat n) * 100)
                 (set_completed_files (i + 1)
                   (set_status (''downloading '' @ str_nat (i + 1) @ ''/'' @ str_nat n) t)))"
    have c: "completed_files ?t' = Some (i + 1)"
      and p: "progress ?t' = (of_nat (i + 1) / of_nat n) * 100"
      by (simp_all add: setters)
    from Cons.IH [OF c p, of "i + 1"] show ?thesis
      unfolding item batch_loop_ok [OF Inr [unfolded ft]] by (simp add: setters)
  qed
qed

lemma batch_final_counts:
  assumes "truthy_id task_id"
  shows "status (last (batch_trace (batch_download av eng now urls task_id pp))) = ''completed''"
    and "map_option length (files (last (batch_trace (batch_download av eng now urls task_id pp))))
           = Some (length urls)"
    and "map_option length (errors (last (batch_trace (batch_download av eng now urls task_id pp))))
           = Some (length (filter (\<lambda>item. isl (outcome (snd item))) urls))"
proof -
  let ?i = "new_batch_task now (length urls) pp"
  have f: "files ?i = Some []" and e: "errors ?i = Some []"
    by (simp_all add: new_batch_task_def)
  note l = batch_loop_lists [OF f e, of av eng now pp "length urls" 0 urls]
  show "status (last (batch_trace (batch_download av eng now urls task_id pp))) = ''completed''"
    by (rule batch_ends_completed(1) [OF assms])
  show "map_option length (files (last (batch_trace (batch_download av eng now urls task_id pp))))
           = Some (length urls)"
    using l by (simp only: batch_trace_tracked [OF assms] last_after_each_append)
      (simp add: setters)
  show "map_option length (errors (last (batch_trace (batch_download av eng now urls task_id pp))))
           = Some (length (filter (\<lambda>item. isl (outcome (snd item))) urls))"
    using l by (simp only: batch_trace_tracked [OF assms] last_after_each_append)
      (simp add: setters)
qed

lemma batch_progress_matches_counter:
  "\<exists>c. completed_files (last (new_batch_task now n pp # after_each (new_batch_task now n pp)
            (fst (batch_loop av eng now pp True n 0 (take k urls))))) = Some c
       \<and> progress (last (new_batch_task now n pp # after_each (new_batch_task now n pp)
            (fst (batch_loop av eng now pp True n 0 (take k urls))))) = (of_nat c / of_nat n) * 100"
  by (rule batch_loop_counter [where c = 0]) (simp_all add: new_batch_task_def)

section \<open>C1: progress never regresses, and a terminal task is frozen\<close>

text \<open>
  Claim C1, as amended. (1) The progress of a single download never decreases from one
  write to the next, provided the retrieval engine is \<^const>\<open>orderly\<close>: its percentages
  do not decrease, lie in \<open>[0, 100]\<close>, and none follows a completion report. The hook
  stores whatever the engine reports, so without that proviso progress can decrease.
  The progress of a batch task never decreases, whatever the engine does. (2) A terminal
  status, once written, is never replaced. The write of the terminal status belongs to
  the last block of writes of the worker: at most three recorded values of a task have
  a terminal status, that is, at most two writes follow it (the accompanying
  \<^verbatim>\<open>filename\<close> and \<^verbatim>\<open>progress\<close>, or \<^verbatim>\<open>error\<close>), and the last value of a tracked
  task is terminal. (3) After the worker, a progress poll leaves every entry of the
  registry as it is or removes it, and a file retrieval leaves the registry as it is:
  no handler changes a field of a task.
\<close>

theorem task_progress_invariant:
  "(orderly 0 False (events run) \<longrightarrow>
      successively (\<lambda>a b. progress a \<le> progress b) (trace (download_video av eng run now task_id pp)) \<and>
      progress_never_regresses (trace (download_video av eng run now task_id pp)))
   \<and> successively (\<lambda>a b. progress a \<le> progress b)
        (batch_trace (batch_download av eng now urls task_id pp))
   \<and> progress_never_regresses (batch_trace (batch_download av eng now urls task_id pp))
   \<and> successively (\<lambda>a b. \<not> is_terminal (status a) \<or> status b = status a)
        (trace (download_video av eng run now task_id pp))
   \<and> successively (\<lambda>a b. \<not> is_terminal (status a) \<or> status b = status a)
        (batch_trace (batch_download av eng now urls task_id pp))
   \<and> length (filter (\<lambda>s. is_terminal (status s))
        (trace (download_video av eng run now task_id pp))) \<le> 3
   \<and> length (filter (\<lambda>s. is_terminal (status s))
        (batch_trace (batch_download av eng now urls task_id pp))) \<le> 3
   \<and> (truthy_id task_id \<longrightarrow>
        is_terminal (status (last (trace (download_video av eng run now task_id pp)))) \<and>
        is_terminal (status (last (batch_trace (batch_download av eng now urls task_id pp)))))
   \<and> (snd (get_download_progress tasks later k) k' = tasks k' \<or>
        snd (get_download_progress tasks later k) k' = None)
   \<and> snd (download_completed_file tasks path_exists k) = tasks"
proof -
  have single: "successively (\<lambda>a b. progress a \<le> progress b)
      (trace (download_video av eng run now task_id pp))" if "orderly 0 False (events run)"
  proof (cases "truthy_id task_id")
    case True
    from single_progress_sorted [OF True that] show ?thesis .
  next
    case False
    then show ?thesis by (simp add: trace_untracked)
  qed
  have batch: "successively (\<lambda>a b. progress a \<le> progress b)
      (batch_trace (batch_download av eng now urls task_id pp))"
  proof (cases "truthy_id task_id")
    case True
    from batch_progress_sorted [OF True] show ?thesis .
  next
    case False
    then show ?thesis by (simp add: batch_trace_untracked)
  qed
  have ends: "is_terminal (status (last (batch_trace (batch_download av eng now urls task_id pp))))"
    if "truthy_id task_id"
    by (simp add: batch_ends_completed(1) [OF that] is_terminal_def)
  have poll: "snd (get_download_progress tasks later k) k' = tasks k' \<or>
        snd (get_download_progress tasks later k) k' = None"
    by (simp add: get_download_progress_def split: option.splits)
  have retrieval: "snd (download_completed_file tasks path_exists k) = tasks"
    by (simp add: download_completed_file_def split: option.splits)
  show ?thesis
    by (intro conjI impI poll)
      (simp_all only: single batch ends retrieval sorted_progress_never_regresses
        single_status_kept batch_status_kept single_terminal_count batch_terminal_count
        single_ends_terminal)
qed

text \<open>The amended C1 at an orderly fetch (50 percent, then the completion report) and at
  a batch of one URL.\<close>

theorem task_progress_invariant_witness:
  "orderly 0 False (events \<lparr>events = [Downloading (Some 50) ''v.mp4'', Finished ''v.mp4''],
        outcome = Inr (''v.mp4'', ''Video'')\<rparr>) \<and>
   truthy_id (Some ''t1'') \<and>
   successively (\<lambda>a b. progress a \<le> progress b) (trace (download_video False (\<lambda>c. Inl ''unused'')
        \<lparr>events = [Downloading (Some 50) ''v.mp4'', Finished ''v.mp4''],
         outcome = Inr (''v.mp4'', ''Video'')\<rparr> 0 (Some ''t1'') None)) \<and>
   progress_never_regresses (trace (download_video False (\<lambda>c. Inl ''unused'')
        \<lparr>events = [Downloading (Some 50) ''v.mp4'', Finished ''v.mp4''],
         outcome = Inr (''v.mp4'', ''Video'')\<rparr> 0 (Some ''t1'') None)) \<and>
   is_terminal (status (last (trace (download_video False (\<lambda>c. Inl ''unused'')
        \<lparr>events = [Downloading (Some 50) ''v.mp4'', Finished ''v.mp4''],
         outcome = Inr (''v.mp4'', ''Video'')\<rparr> 0 (Some ''t1'') None)))) \<and>
   is_terminal (status (last (batch_trace (batch_download False (\<lambda>c. Inl ''unused'') 0
        [(''u1'', \<lparr>events = [], outcome = Inr (''v.mp4'', ''Video'')\<rparr>)] (Some ''t1'') None))))"
proof -
  have h1: "orderly 0 False (events \<lparr>events = [Downloading (Some 50) ''v.mp4'', Finished ''v.mp4''],
        outcome = Inr (''v.mp4'', ''Video'')\<rparr>)" by simp
  have h2: "truthy_id (Some ''t1'')" by (simp add: truthy_id_def)
  from h1 h2 task_progress_invariant [where av = False and eng = "\<lambda>c. Inl ''unused''"
      and run = "\<lparr>events = [Downloading (Some 50) ''v.mp4'', Finished ''v.mp4''],
         outcome = Inr (''v.mp4'', ''Video'')\<rparr>"
      and now = 0 and task_id = "Some ''t1''" and pp = None
      and urls = "[(''u1'', \<lparr>events = [], outcome = Inr (''v.mp4'', ''Video'')\<rparr>)]"
      and tasks = "Map.empty" and later = 0 and k = "''t1''" and k' = "''t1''"
      and path_exists = "\<lambda>p. True"]
  show ?thesis by blast
qed

text \<open>
  Claim C1 as stated fails on a download without post-processing whose engine reports
  50 percent and then 10 percent (as yt-dlp does when it fetches a video stream and then
  an audio stream): progress goes from 35 to 7 while the status is \<^verbatim>\<open>downloading\<close>;
  and after \<^verbatim>\<open>status\<close> has been set to \<^verbatim>\<open>completed\<close> the worker still writes
  \<^verbatim>\<open>filename\<close> and then raises \<^verbatim>\<open>progress\<close> from 7 to 100, so the fields are not frozen
  from the moment the status is terminal.
\<close>

theorem task_progress_counterexample:
  "\<not> progress_never_regresses (trace (download_video False (\<lambda>c. Inl ''unused'')
        \<lparr>events = [Downloading (Some 50) ''v.mp4'', Downloading (Some 10) ''v.mp4''],
         outcome = Inr (''v.mp4'', ''Video'')\<rparr> 0 (Some ''t1'') None))
   \<and> \<not> frozen_once_terminal (trace (download_video False (\<lambda>c. Inl ''unused'')
        \<lparr>events = [Downloading (Some 50) ''v.mp4'', Downloading (Some 10) ''v.mp4''],
         outcome = Inr (''v.mp4'', ''Video'')\<rparr> 0 (Some ''t1'') None))"
  by (simp add: run_defs setters progress_never_regresses_def frozen_once_terminal_def
      is_terminal_def)

section \<open>C2: the counters of a batch\<close>

text \<open>
  Claim C2 says that after a batch of \<open>N\<close> URLs of which \<open>M\<close> fail, \<^verbatim>\<open>completed_files\<close>
  equals \<open>N\<close>. The loop writes \<^verbatim>\<open>completed_files = i + 1\<close> only when item \<open>i\<close>
  succeeds, so the field ends as the position of the last successful item. The code at
  a batch of two URLs whose second fails: the final status is \<^verbatim>\<open>completed\<close>, progress
  is 100, \<^verbatim>\<open>files\<close> has two entries and \<^verbatim>\<open>errors\<close> one, as the claim says, but
  \<^verbatim>\<open>completed_files\<close> is 1, not 2. The other parts of the claim hold for every
  batch (lemmas \<open>batch_final_counts\<close> and \<open>batch_progress_matches_counter\<close>).
\<close>

theorem batch_completed_files_failing_input:
  "(let t = last (batch_trace (batch_download False (\<lambda>c. Inl ''unused'') 0
               [(''u1'', \<lparr>events = [], outcome = Inr (''v.mp4'', ''Video'')\<rparr>),
                (''u2'', \<lparr>events = [], outcome = Inl ''Unsupported URL''\<rparr>)]
               (Some ''b1'') None))
    in status t = ''completed'' \<and> progress t = 100 \<and> total_files t = Some 2 \<and>
       completed_files t = Some 1 \<and>
       map_option length (files t) = Some 2 \<and> map_option length (errors t) = Some 1)"
  by (simp add: batch_download_def new_batch_task_def run_defs setters)

section \<open>C3: the weight of the fetch phase\<close>

text \<open>
  Claim C3, as amended: for every progress callback of the fetch phase that reports a
  percentage \<open>p\<close>, the progress of the task after the callback is \<open>p * 0.7\<close>, whether
  or not post-processing was requested. The hook multiplies by the constant
  \<^verbatim>\<open>0.7\<close> in its \<^verbatim>\<open>'downloading'\<close> branch without looking at \<^verbatim>\<open>post_process\<close>; no
  weight 1.0 exists in the code. The statement holds for every \<open>p\<close>, also outside
  \<open>[0, 100]\<close>.
\<close>

theorem fetch_progress_weight:
  "progress (last (t # after_each t (progress_hook pp (Downloading (Some p) fname)))) = p * (7 / 10)"
  by (simp add: setters)

text \<open>The amended C3 at a task without post-processing and a report of 50 percent.\<close>

theorem fetch_progress_weight_witness:
  "progress (last (new_task 0 None # after_each (new_task 0 None)
      (progress_hook None (Downloading (Some 50) ''v.mp4'')))) = 50 * (7 / 10)"
  by (rule fetch_progress_weight)

text \<open>
  Claim C3 as stated fails: without post-processing the claimed weight is 1.0, so a
  report of 50 percent should give progress 50; the hook stores 35.
\<close>

theorem fetch_weight_counterexample:
  "progress (last (new_task 0 None # after_each (new_task 0 None)
      (progress_hook None (Downloading (Some 50) ''v.mp4'')))) \<noteq> 50 * 1"
  by (simp add: setters new_task_def)

section \<open>C4: the statuses of a task and their order\<close>

text \<open>
  Claim C4, as amended. Every status a single-download task holds is one of
  \<^verbatim>\<open>starting\<close>, \<^verbatim>\<open>downloading\<close>, \<^verbatim>\<open>finished\<close>, \<^verbatim>\<open>post_processing\<close>, \<^verbatim>\<open>completed\<close>,
  \<^verbatim>\<open>error\<close>; every status a batch task holds is \<^verbatim>\<open>starting\<close>, \<^verbatim>\<open>completed\<close> or
  \<^verbatim>\<open>downloading k/n\<close> with \<open>n\<close> the number of URLs. A task submitted without
  \<^verbatim>\<open>post_process\<close> never holds \<^verbatim>\<open>post_processing\<close>, and a batch task never does. When
  the engine reports no percentage after a completion report, the statuses of a single
  download follow the order \<^verbatim>\<open>starting\<close>, \<^verbatim>\<open>downloading\<close>, then \<^verbatim>\<open>finished\<close> or
  \<^verbatim>\<open>post_processing\<close>, then \<^verbatim>\<open>completed\<close>, with \<^verbatim>\<open>error\<close> entered only from a
  non-terminal status (\<^const>\<open>status_step\<close>). A tracked task starts as \<^verbatim>\<open>starting\<close>,
  ends in a terminal status, and ends in \<^verbatim>\<open>error\<close> when the engine raises, whatever
  status the callbacks have left.
\<close>

theorem status_values_and_order:
  "list_all (\<lambda>s. status s \<in> set [''starting'', ''downloading'', ''finished'',
        ''post_processing'', ''completed'', ''error''])
      (trace (download_video av eng run now task_id pp))
   \<and> list_all (\<lambda>s. status s = ''starting'' \<or> status s = ''completed'' \<or>
          (\<exists>k. status s = ''downloading '' @ str_nat k @ ''/'' @ str_nat (length urls)))
        (batch_trace (batch_download av eng now urls task_id pp))
   \<and> list_all (\<lambda>s. status s \<noteq> ''post_processing'')
        (trace (download_video av eng run now task_id None))
   \<and> list_all (\<lambda>s. status s \<noteq> ''post_processing'')
        (batch_trace (batch_download av eng now urls task_id pp))
   \<and> (fetch_before_finish False (events run) \<longrightarrow>
        successively (\<lambda>a b. status_step (status a) (status b))
          (trace (download_video av eng run now task_id pp)))
   \<and> (truthy_id task_id \<longrightarrow>
        status (hd (trace (download_video av eng run now task_id pp))) = ''starting'' \<and>
        is_terminal (status (last (trace (download_video av eng run now task_id pp)))))
   \<and> (truthy_id task_id \<and> outcome run = Inl e \<longrightarrow>
        status (last (trace (download_video av eng run now task_id pp))) = ''error'')"
proof -
  have batch: "list_all (\<lambda>s. status s = ''starting'' \<or> status s = ''completed'' \<or>
          (\<exists>k. status s = ''downloading '' @ str_nat k @ ''/'' @ str_nat (length urls)))
        (batch_trace (batch_download av eng now urls task_id pp))"
  proof (cases "truthy_id task_id")
    case True
    from batch_statuses [OF True] show ?thesis .
  next
    case False
    then show ?thesis by (simp add: batch_trace_untracked)
  qed
  have first: "status (hd (trace (download_video av eng run now task_id pp))) = ''starting''"
    if "truthy_id task_id"
    by (simp add: trace_tracked [OF that] new_task_def)
  have failed: "status (last (trace (download_video av eng run now task_id pp))) = ''error''"
    if "truthy_id task_id \<and> outcome run = Inl e"
    using that single_final_error(1) by blast
  show ?thesis
    by (intro conjI impI batch)
      (simp_all only: single_statuses single_no_post_processing batch_no_post_processing
        single_order first failed single_ends_terminal)
qed

text \<open>The amended C4 at a fetch that reports 50 percent and its end, with a compress
  configuration, and at a fetch that raises after 50 percent.\<close>

theorem status_values_and_order_witness:
  "fetch_before_finish False (events \<lparr>events = [Downloading (Some 50) ''v.mp4'', Finished ''v.mp4''],
        outcome = Inr (''v.mp4'', ''Video'')\<rparr>) \<and>
   truthy_id (Some ''t1'') \<and>
   successively (\<lambda>a b. status_step (status a) (status b))
     (trace (download_video True (\<lambda>c. Inr ''v_compressed.mp4'')
        \<lparr>events = [Downloading (Some 50) ''v.mp4'', Finished ''v.mp4''],
         outcome = Inr (''v.mp4'', ''Video'')\<rparr> 0 (Some ''t1'')
        (Some (Config [(''action'', ''compress'')])))) \<and>
   status (hd (trace (download_video True (\<lambda>c. Inr ''v_compressed.mp4'')
        \<lparr>events = [Downloading (Some 50) ''v.mp4'', Finished ''v.mp4''],
         outcome = Inr (''v.mp4'', ''Video'')\<rparr> 0 (Some ''t1'')
        (Some (Config [(''action'', ''compress'')]))))) = ''starting'' \<and>
   is_terminal (status (last (trace (download_video True (\<lambda>c. Inr ''v_compressed.mp4'')
        \<lparr>events = [Downloading (Some 50) ''v.mp4'', Finished ''v.mp4''],
         outcome = Inr (''v.mp4'', ''Video'')\<rparr> 0 (Some ''t1'')
        (Some (Config [(''action'', ''compress'')])))))) \<and>
   status (last (trace (download_video True (\<lambda>c. Inr ''v_compressed.mp4'')
        \<lparr>events = [Downloading (Some 50) ''v.mp4''], outcome = Inl ''HTTP Error 403''\<rparr>
        0 (Some ''t1'') (Some (Config [(''action'', ''compress'')]))))) = ''error''"
proof -
  have h1: "fetch_before_finish False (events \<lparr>events = [Downloading (Some 50) ''v.mp4'', Finished ''v.mp4''],
        outcome = Inr (''v.mp4'', ''Video'')\<rparr>)" by simp
  have h2: "truthy_id (Some ''t1'')" by (simp add: truthy_id_def)
  have h3: "outcome \<lparr>events = [Downloading (Some 50) ''v.mp4''], outcome = Inl ''HTTP Error 403''\<rparr>
              = Inl ''HTTP Error 403''" by simp
  from h1 h2 h3
    status_values_and_order [where av = True and eng = "\<lambda>c. Inr ''v_compressed.mp4''"
      and run = "\<lparr>events = [Downloading (Some 50) ''v.mp4'', Finished ''v.mp4''],
         outcome = Inr (''v.mp4'', ''Video'')\<rparr>"
      and now = 0 and task_id = "Some ''t1''" and pp = "Some (Config [(''action'', ''compress'')])"
      and urls = "[]" and e = "''x''"]
    status_values_and_order [where av = True and eng = "\<lambda>c. Inr ''v_compressed.mp4''"
      and run = "\<lparr>events = [Downloading (Some 50) ''v.mp4''], outcome = Inl ''HTTP Error 403''\<rparr>"
      and now = 0 and task_id = "Some ''t1''" and pp = "Some (Config [(''action'', ''compress'')])"
      and urls = "[]" and e = "''HTTP Error 403''"]
  show ?thesis by blast
qed

text \<open>
  Claim C4 as stated fails three times: a download without post-processing holds the
  status \<^verbatim>\<open>finished\<close>; a batch holds the status \<^verbatim>\<open>downloading 1/1\<close>; and when the
  engine fetches two streams, the status goes back from \<^verbatim>\<open>post_processing\<close> to
  \<^verbatim>\<open>downloading\<close>.
\<close>

theorem status_values_counterexample:
  "\<not> list_all (\<lambda>s. status s \<in> set [''starting'', ''downloading'', ''post_processing'',
         ''completed'', ''error''])
       (trace (download_video False (\<lambda>c. Inl ''unused'')
          \<lparr>events = [Finished ''v.mp4''], outcome = Inr (''v.mp4'', ''Video'')\<rparr>
          0 (Some ''t1'') None))
   \<and> \<not> list_all (\<lambda>s. status s \<in> set [''starting'', ''downloading'', ''post_processing'',
         ''completed'', ''error''])
       (batch_trace (batch_download False (\<lambda>c. Inl ''unused'') 0
          [(''u1'', \<lparr>events = [], outcome = Inr (''v.mp4'', ''Video'')\<rparr>)] (Some ''b1'') None))
   \<and> \<not> successively (\<lambda>a b. status_step (status a) (status b))
       (trace (download_video False (\<lambda>c. Inl ''unused'')
          \<lparr>events = [Finished ''v.f137.mp4'', Downloading (Some 10) ''v.f140.m4a''],
           outcome = Inr (''v.mp4'', ''Video'')\<rparr>
          0 (Some ''t1'') (Some (Config [(''action'', ''compress'')]))))"
proof (intro conjI)
  show "\<not> list_all (\<lambda>s. status s \<in> set [''starting'', ''downloading'', ''post_processing'',
         ''completed'', ''error''])
       (trace (download_video False (\<lambda>c. Inl ''unused'')
          \<lparr>events = [Finished ''v.mp4''], outcome = Inr (''v.mp4'', ''Video'')\<rparr>
          0 (Some ''t1'') None))"
    by (simp add: run_defs setters)
  show "\<not> list_all (\<lambda>s. status s \<in> set [''starting'', ''downloading'', ''post_processing'',
         ''completed'', ''error''])
       (batch_trace (batch_download False (\<lambda>c. Inl ''unused'') 0
          [(''u1'', \<lparr>events = [], outcome = Inr (''v.mp4'', ''Video'')\<rparr>)] (Some ''b1'') None))"
    by (simp add: batch_download_def new_batch_task_def run_defs setters)
  show "\<not> successively (\<lambda>a b. status_step (status a) (status b))
       (trace (download_video False (\<lambda>c. Inl ''unused'')
          \<lparr>events = [Finished ''v.f137.mp4'', Downloading (Some 10) ''v.f140.m4a''],
           outcome = Inr (''v.mp4'', ''Video'')\<rparr>
          0 (Some ''t1'') (Some (Config [(''action'', ''compress'')]))))"
    by (simp add: run_defs setters status_step_def status_rank_def is_terminal_def)
qed

section \<open>C5: a failed post-processing falls back to the fetched file\<close>

text \<open>
  Claim C5: a tracked task with post-processing requested whose fetch succeeds and whose
  post-processing fails still ends with status \<^verbatim>\<open>completed\<close> and with the fetched,
  unprocessed file as its \<^verbatim>\<open>filename\<close>; no state of the task has status \<^verbatim>\<open>error\<close>,
  the \<^verbatim>\<open>error\<close> field stays \<^verbatim>\<open>None\<close>, and the caller gets the fetched file back.
  The post-processing fails when the processor method selected by the configuration
  raises, or when the configuration is a string, on which \<^verbatim>\<open>.get\<close> raises. The statement
  holds whether or not the transcoding engine is available.
\<close>

theorem post_process_failure_falls_back:
  assumes "truthy_id task_id" and "truthy_pp pp" and "outcome run = Inr (fname, title)"
    and "(\<exists>s. pp = Some (PresetName s)) \<or>
         (\<exists>kv c e. pp = Some (Config kv) \<and> select_call fname kv = Some c \<and> eng c = Inl e)"
  shows "status (last (trace (download_video av eng run now task_id pp))) = ''completed'' \<and>
         filename (last (trace (download_video av eng run now task_id pp))) = Some fname \<and>
         error (last (trace (download_video av eng run now task_id pp))) = Some None \<and>
         list_all (\<lambda>s. status s \<noteq> ''error'' \<and> error s = Some None)
           (trace (download_video av eng run now task_id pp)) \<and>
         returned (download_video av eng run now task_id pp) = Inr (fname, title)"
proof -
  note fallback = failed_post_processing [OF assms(4)]
  have all: "list_all (\<lambda>s. status s \<noteq> ''error'' \<and> error s = Some None)
           (trace (download_video av eng run now task_id pp))"
    by (rule single_no_error [OF assms(3)])
  have "trace (download_video av eng run now task_id pp) \<noteq> []"
    by (simp add: trace_tracked [OF assms(1)])
  with all have "error (last (trace (download_video av eng run now task_id pp))) = Some None"
    unfolding list_all_iff using last_in_set by blast
  with all show ?thesis
    by (simp add: single_final_ok [OF assms(1) assms(3)] returned_ok [OF assms(3)] fallback)
qed

text \<open>C5 at a compress configuration, an available engine whose every call raises, and
  a fetch that returns \<^verbatim>\<open>v.mp4\<close>.\<close>

theorem post_process_failure_falls_back_witness:
  "truthy_id (Some ''t1'') \<and> truthy_pp (Some (Config [(''action'', ''compress'')])) \<and>
   select_call ''v.mp4'' [(''action'', ''compress'')] = Some (CompressVideo ''v.mp4'' ''medium'') \<and>
   status (last (trace (download_video True (\<lambda>c. Inl ''ffmpeg error'')
      \<lparr>events = [Finished ''v.mp4''], outcome = Inr (''v.mp4'', ''Video'')\<rparr> 0 (Some ''t1'')
      (Some (Config [(''action'', ''compress'')]))))) = ''completed'' \<and>
   filename (last (trace (download_video True (\<lambda>c. Inl ''ffmpeg error'')
      \<lparr>events = [Finished ''v.mp4''], outcome = Inr (''v.mp4'', ''Video'')\<rparr> 0 (Some ''t1'')
      (Some (Config [(''action'', ''compress'')]))))) = Some ''v.mp4'' \<and>
   error (last (trace (download_video True (\<lambda>c. Inl ''ffmpeg error'')
      \<lparr>events = [Finished ''v.mp4''], outcome = Inr (''v.mp4'', ''Video'')\<rparr> 0 (Some ''t1'')
      (Some (Config [(''action'', ''compress'')]))))) = Some None \<and>
   returned (download_video True (\<lambda>c. Inl ''ffmpeg error'')
      \<lparr>events = [Finished ''v.mp4''], outcome = Inr (''v.mp4'', ''Video'')\<rparr> 0 (Some ''t1'')
      (Some (Config [(''action'', ''compress'')]))) = Inr (''v.mp4'', ''Video'')"
proof -
  have h1: "truthy_id (Some ''t1'')" by (simp add: truthy_id_def)
  have h2: "truthy_pp (Some (Config [(''action'', ''compress'')]))" by (simp add: truthy_pp_def)
  have h3: "outcome \<lparr>events = [Finished ''v.mp4''], outcome = Inr (''v.mp4'', ''Video'')\<rparr>
              = Inr (''v.mp4'', ''Video'')" by simp
  have sel: "select_call ''v.mp4'' [(''action'', ''compress'')] = Some (CompressVideo ''v.mp4'' ''medium'')"
    by (simp add: select_call_def get_or_def)
  then have h4: "(\<exists>s. Some (Config [(''action'', ''compress'')]) = Some (PresetName s)) \<or>
         (\<exists>kv c e. Some (Config [(''action'', ''compress'')]) = Some (Config kv) \<and>
            select_call ''v.mp4'' kv = Some c \<and> (\<lambda>c. Inl ''ffmpeg error'') c = Inl e)"
    by simp
  from post_process_failure_falls_back [OF h1 h2 h3 h4, of True 0] h1 h2 sel
  show ?thesis by blast
qed

section \<open>C6: an unavailable transcoding engine is not an error\<close>

text \<open>
  Claim C6: when the transcoding engine is unavailable and the fetch succeeds, a tracked
  task makes no call to the processor, ends with status \<^verbatim>\<open>completed\<close> and the fetched
  file as its \<^verbatim>\<open>filename\<close>, never has status \<^verbatim>\<open>error\<close>, and its \<^verbatim>\<open>error\<close> field
  stays \<^verbatim>\<open>None\<close>. This holds for every value of \<^verbatim>\<open>post_process\<close>, in particular for
  every configuration.
\<close>

theorem engine_unavailable_is_no_error:
  assumes "truthy_id task_id" and "outcome run = Inr (fname, title)"
  shows "calls (download_video False eng run now task_id pp) = [] \<and>
         status (last (trace (download_video False eng run now task_id pp))) = ''completed'' \<and>
         filename (last (trace (download_video False eng run now task_id pp))) = Some fname \<and>
         list_all (\<lambda>s. status s \<noteq> ''error'' \<and> error s = Some None)
           (trace (download_video False eng run now task_id pp)) \<and>
         returned (download_video False eng run now task_id pp) = Inr (fname, title)"
  using single_no_error [OF assms(2), of False eng now task_id pp]
  by (simp add: single_final_ok [OF assms] returned_ok [OF assms(2)])

text \<open>C6 at the configuration \<^verbatim>\<open>{action: compress, level: high}\<close> of the specification's
  example.\<close>

theorem engine_unavailable_is_no_error_witness:
  "truthy_id (Some ''t1'') \<and>
   calls (download_video False (\<lambda>c. Inr ''v_compressed.mp4'')
      \<lparr>events = [Finished ''v.mp4''], outcome = Inr (''v.mp4'', ''Video'')\<rparr> 0 (Some ''t1'')
      (Some (Config [(''action'', ''compress''), (''level'', ''high'')]))) = [] \<and>
   status (last (trace (download_video False (\<lambda>c. Inr ''v_compressed.mp4'')
      \<lparr>events = [Finished ''v.mp4''], outcome = Inr (''v.mp4'', ''Video'')\<rparr> 0 (Some ''t1'')
      (Some (Config [(''action'', ''compress''), (''level'', ''high'')]))))) = ''completed'' \<and>
   filename (last (trace (download_video False (\<lambda>c. Inr ''v_compressed.mp4'')
      \<lparr>events = [Finished ''v.mp4''], outcome = Inr (''v.mp4'', ''Video'')\<rparr> 0 (Some ''t1'')
      (Some (Config [(''action'', ''compress''), (''level'', ''high'')]))))) = Some ''v.mp4'' \<and>
   returned (download_video False (\<lambda>c. Inr ''v_compressed.mp4'')
      \<lparr>events = [Finished ''v.mp4''], outcome = Inr (''v.mp4'', ''Video'')\<rparr> 0 (Some ''t1'')
      (Some (Config [(''action'', ''compress''), (''level'', ''high'')]))) = Inr (''v.mp4'', ''Video'')"
proof -
  have h1: "truthy_id (Some ''t1'')" by (simp add: truthy_id_def)
  have h2: "outcome \<lparr>events = [Finished ''v.mp4''], outcome = Inr (''v.mp4'', ''Video'')\<rparr>
              = Inr (''v.mp4'', ''Video'')" by simp
  from engine_unavailable_is_no_error [OF h1 h2] h1 show ?thesis by blast
qed

section \<open>C7: reading an expired task\<close>

text \<open>
  Claim C7, as amended: for a task whose status is terminal and whose \<^verbatim>\<open>start_time\<close>
  lies more than 3600 seconds before now, a progress poll (\<^verbatim>\<open>get_download_progress\<close>)
  answers 404 and removes the task from the registry, so that a later progress poll,
  and a later file retrieval, of the same identifier answer 404 "Task not found" and
  leave the registry as it is. The file retrieval itself makes no expiry check.
\<close>

theorem expired_task_poll:
  assumes "tasks task_id = Some t" and "is_terminal (status t)" and "now - start_time t > 3600"
  shows "get_download_progress tasks now task_id =
           (JsonError ''Task expired'' 404, tasks(task_id := None)) \<and>
         get_download_progress (tasks(task_id := None)) later task_id =
           (JsonError ''Task not found'' 404, tasks(task_id := None)) \<and>
         download_completed_file (tasks(task_id := None)) path_exists task_id =
           (JsonError ''Task not found'' 404, tasks(task_id := None))"
  using assms
  by (simp add: get_download_progress_def download_completed_file_def is_terminal_def)

text \<open>The amended C7 at a completed task created at time 0 and polled at time 4000.\<close>

theorem expired_task_poll_witness:
  "is_terminal ''completed'' \<and> (4000 :: rat) - 0 > 3600 \<and>
   get_download_progress [''t1'' \<mapsto> (new_task 0 None)\<lparr>status := ''completed''\<rparr>] 4000 ''t1'' =
     (JsonError ''Task expired'' 404,
      [''t1'' \<mapsto> (new_task 0 None)\<lparr>status := ''completed''\<rparr>](''t1'' := None)) \<and>
   get_download_progress ([''t1'' \<mapsto> (new_task 0 None)\<lparr>status := ''completed''\<rparr>](''t1'' := None))
      4001 ''t1'' =
     (JsonError ''Task not found'' 404,
      [''t1'' \<mapsto> (new_task 0 None)\<lparr>status := ''completed''\<rparr>](''t1'' := None))"
proof -
  have h1: "[''t1'' \<mapsto> (new_task 0 None)\<lparr>status := ''completed''\<rparr>] ''t1''
              = Some ((new_task 0 None)\<lparr>status := ''completed''\<rparr>)" by simp
  have h2: "is_terminal (status ((new_task 0 None)\<lparr>status := ''completed''\<rparr>))"
    by (simp add: is_terminal_def)
  have h3: "4000 - start_time ((new_task 0 None)\<lparr>status := ''completed''\<rparr>) > 3600"
    by (simp add: new_task_def)
  have h4: "is_terminal ''completed'' \<and> (4000 :: rat) - 0 > 3600"
    by (simp add: is_terminal_def)
  from expired_task_poll [where tasks = "[''t1'' \<mapsto> (new_task 0 None)\<lparr>status := ''completed''\<rparr>]"
      and task_id = "''t1''" and later = 4001, OF h1 h2 h3] h4
  show ?thesis by blast
qed

text \<open>
  Claim C7 as stated speaks of any single-task read. It fails for
  \<^verbatim>\<open>download_completed_file\<close>: for a completed task created at time 0 whose file
  exists, a file retrieval at any later time sends the file and keeps the task.
\<close>

theorem expired_file_retrieval_counterexample:
  "(let t = last (trace (download_video False (\<lambda>c. Inl ''unused'')
               \<lparr>events = [], outcome = Inr (''v.mp4'', ''Video'')\<rparr> 0 (Some ''t1'') None))
    in is_terminal (status t) \<and> 4000 - start_time t > 3600 \<and>
       download_completed_file [''t1'' \<mapsto> t] (\<lambda>p. True) ''t1'' = (SendFile ''v.mp4'', [''t1'' \<mapsto> t]))"
  by (simp add: run_defs setters is_terminal_def download_completed_file_def)

section \<open>C8: the checkpoints at the end of the fetch phase\<close>

text \<open>
  Claim C8, as amended. The callback tests the truth value of \<^verbatim>\<open>post_process\<close>, not its
  presence. When \<^verbatim>\<open>post_process\<close> is truthy (a non-empty configuration or a non-empty
  string), the callback that reports the end of the fetch sets progress 70 and status
  \<^verbatim>\<open>post_processing\<close>. When \<^verbatim>\<open>post_process\<close> is absent or empty (\<^verbatim>\<open>None\<close>, \<^verbatim>\<open>''\<close> or
  \<^verbatim>\<open>{}\<close>), the same callback sets progress 100 and status \<^verbatim>\<open>finished\<close> (not
  \<^verbatim>\<open>completed\<close>). In every case, once the call of the retrieval engine has returned
  (and, when \<^verbatim>\<open>post_process\<close> is truthy and the transcoding engine is available, the
  post-processing has ended), a tracked task is left with progress 100, status
  \<^verbatim>\<open>completed\<close> and the processed or the fetched file as \<^verbatim>\<open>filename\<close>. The flag
  \<^verbatim>\<open>post_processing\<close> stored in the task records presence (\<^verbatim>\<open>post_process is not None\<close>),
  so for an empty configuration the flag is true and the checkpoint is not taken.
\<close>

theorem fetch_completion_checkpoints:
  "(truthy_pp pp \<longrightarrow>
      progress (last (t # after_each t (progress_hook pp (Finished f)))) = 70 \<and>
      status (last (t # after_each t (progress_hook pp (Finished f)))) = ''post_processing'')
   \<and> (\<not> truthy_pp pp \<longrightarrow>
      progress (last (t # after_each t (progress_hook pp (Finished f)))) = 100 \<and>
      status (last (t # after_each t (progress_hook pp (Finished f)))) = ''finished'')
   \<and> (truthy_id task_id \<and> outcome run = Inr (fname, title) \<longrightarrow>
      progress (last (trace (download_video av eng run now task_id pp))) = 100 \<and>
      status (last (trace (download_video av eng run now task_id pp))) = ''completed'' \<and>
      filename (last (trace (download_video av eng run now task_id pp))) =
        Some (if truthy_pp pp \<and> av then fst (apply_post_processing av eng fname pp) else fname))
   \<and> post_processing (new_task now pp) = (pp \<noteq> None)"
proof (intro conjI impI)
  assume "truthy_pp pp"
  then show "progress (last (t # after_each t (progress_hook pp (Finished f)))) = 70"
    and "status (last (t # after_each t (progress_hook pp (Finished f)))) = ''post_processing''"
    by (simp_all add: setters)
next
  assume "\<not> truthy_pp pp"
  then show "progress (last (t # after_each t (progress_hook pp (Finished f)))) = 100"
    and "status (last (t # after_each t (progress_hook pp (Finished f)))) = ''finished''"
    by (simp_all add: setters)
next
  assume "truthy_id task_id \<and> outcome run = Inr (fname, title)"
  then have "truthy_id task_id" and "outcome run = Inr (fname, title)" by simp_all
  then show "progress (last (trace (download_video av eng run now task_id pp))) = 100"
    and "status (last (trace (download_video av eng run now task_id pp))) = ''completed''"
    and "filename (last (trace (download_video av eng run now task_id pp))) =
        Some (if truthy_pp pp \<and> av then fst (apply_post_processing av eng fname pp) else fname)"
    by (rule single_final_ok)+
next
  show "post_processing (new_task now pp) = (pp \<noteq> None)"
    by (simp add: new_task_def)
qed

text \<open>The amended C8 at a compress configuration and at the empty configuration, on a
  fetch that reports its end and returns \<^verbatim>\<open>v.mp4\<close>.\<close>

theorem fetch_completion_checkpoints_witness:
  "truthy_pp (Some (Config [(''action'', ''compress'')])) \<and> \<not> truthy_pp (Some (Config [])) \<and>
   truthy_id (Some ''t1'') \<and>
   progress (last (new_task 0 (Some (Config [(''action'', ''compress'')])) #
     after_each (new_task 0 (Some (Config [(''action'', ''compress'')])))
       (progress_hook (Some (Config [(''action'', ''compress'')])) (Finished ''v.mp4'')))) = 70 \<and>
   status (last (new_task 0 (Some (Config [(''action'', ''compress'')])) #
     after_each (new_task 0 (Some (Config [(''action'', ''compress'')])))
       (progress_hook (Some (Config [(''action'', ''compress'')])) (Finished ''v.mp4'')))) = ''post_processing'' \<and>
   progress (last (trace (download_video True (\<lambda>c. Inr ''v_compressed.mp4'')
      \<lparr>events = [Finished ''v.mp4''], outcome = Inr (''v.mp4'', ''Video'')\<rparr> 0 (Some ''t1'')
      (Some (Config [(''action'', ''compress'')]))))) = 100 \<and>
   status (last (trace (download_video True (\<lambda>c. Inr ''v_compressed.mp4'')
      \<lparr>events = [Finished ''v.mp4''], outcome = Inr (''v.mp4'', ''Video'')\<rparr> 0 (Some ''t1'')
      (Some (Config [(''action'', ''compress'')]))))) = ''completed'' \<and>
   progress (last (new_task 0 (Some (Config [])) # after_each (new_task 0 (Some (Config [])))
      (progress_hook (Some (Config [])) (Finished ''v.mp4'')))) = 100 \<and>
   status (last (new_task 0 (Some (Config [])) # after_each (new_task 0 (Some (Config [])))
      (progress_hook (Some (Config [])) (Finished ''v.mp4'')))) = ''finished'' \<and>
   progress (last (trace (download_video True (\<lambda>c. Inr ''v_compressed.mp4'')
      \<lparr>events = [Finished ''v.mp4''], outcome = Inr (''v.mp4'', ''Video'')\<rparr> 0 (Some ''t1'')
      (Some (Config []))))) = 100 \<and>
   status (last (trace (download_video True (\<lambda>c. Inr ''v_compressed.mp4'')
      \<lparr>events = [Finished ''v.mp4''], outcome = Inr (''v.mp4'', ''Video'')\<rparr> 0 (Some ''t1'')
      (Some (Config []))))) = ''completed''"
proof -
  have h: "truthy_pp (Some (Config [(''action'', ''compress'')]))" "\<not> truthy_pp (Some (Config []))"
    "truthy_id (Some ''t1'')"
    "outcome \<lparr>events = [Finished ''v.mp4''], outcome = Inr (''v.mp4'', ''Video'')\<rparr>
       = Inr (''v.mp4'', ''Video'')"
    by (simp_all add: truthy_pp_def truthy_id_def)
  show ?thesis
    using h
      fetch_completion_checkpoints [where pp = "Some (Config [(''action'', ''compress'')])"
        and t = "new_task 0 (Some (Config [(''action'', ''compress'')]))" and f = "''v.mp4''"
        and av = True and task_id = "Some ''t1''"
        and run = "\<lparr>events = [Finished ''v.mp4''], outcome = Inr (''v.mp4'', ''Video'')\<rparr>"
        and fname = "''v.mp4''" and title = "''Video''"
        and eng = "\<lambda>c. Inr ''v_compressed.mp4''" and now = 0]
      fetch_completion_checkpoints [where pp = "Some (Config [])"
        and t = "new_task 0 (Some (Config []))" and f = "''v.mp4''"
        and av = True and task_id = "Some ''t1''"
        and run = "\<lparr>events = [Finished ''v.mp4''], outcome = Inr (''v.mp4'', ''Video'')\<rparr>"
        and fname = "''v.mp4''" and title = "''Video''"
        and eng = "\<lambda>c. Inr ''v_compressed.mp4''" and now = 0]
    by blast
qed

text \<open>
  Claim C8 as stated fails twice. For a task without post-processing the callback that
  reports the end of the fetch does not set status \<^verbatim>\<open>completed\<close>; the status it writes
  is \<^verbatim>\<open>finished\<close>. And for a task submitted with the empty configuration \<^verbatim>\<open>{}\<close>, whose
  \<^verbatim>\<open>post_processing\<close> flag is true, the callback sets neither status
  \<^verbatim>\<open>post_processing\<close> nor progress 70.
\<close>

theorem fetch_completion_counterexample:
  "status (last (new_task 0 None # after_each (new_task 0 None)
      (progress_hook None (Finished ''v.mp4'')))) \<noteq> ''completed''
   \<and> post_processing (new_task 0 (Some (Config [])))
   \<and> status (last (new_task 0 (Some (Config [])) # after_each (new_task 0 (Some (Config [])))
      (progress_hook (Some (Config [])) (Finished ''v.mp4'')))) \<noteq> ''post_processing''
   \<and> progress (last (new_task 0 (Some (Config [])) # after_each (new_task 0 (Some (Config [])))
      (progress_hook (Some (Config [])) (Finished ''v.mp4'')))) \<noteq> 70"
  by (simp add: setters truthy_pp_def new_task_def)

section \<open>C9: a batch task has no file to retrieve\<close>

text \<open>
  Claim C9: no value a batch task ever takes has a \<^verbatim>\<open>filename\<close> key. For a registry
  that holds such a value, \<^verbatim>\<open>download_completed_file\<close> answers 404 "File not found"
  when the status is \<^verbatim>\<open>completed\<close> (and 400 "Download not completed" before), and the
  batch does reach the status \<^verbatim>\<open>completed\<close>.
\<close>

theorem batch_task_has_no_file:
  assumes "truthy_id batch_id"
    and "t \<in> set (batch_trace (batch_download av eng now urls batch_id pp))"
    and "tasks k = Some t"
  shows "filename t = None \<and>
         download_completed_file tasks path_exists k =
           (if status t = ''completed'' then (JsonError ''File not found'' 404, tasks)
            else (JsonError ''Download not completed'' 400, tasks)) \<and>
         status (last (batch_trace (batch_download av eng now urls batch_id pp))) = ''completed''"
proof -
  from batch_filename_absent [OF assms(1), of av eng now urls pp] assms(2)
  have "filename t = None" unfolding list_all_iff by blast
  with assms(3) batch_ends_completed(1) [OF assms(1)] show ?thesis
    by (simp add: download_completed_file_def)
qed

text \<open>C9 at the final value of a batch of one URL, with a file system on which every
  path exists.\<close>

theorem batch_task_has_no_file_witness:
  "truthy_id (Some ''b1'') \<and>
   filename (last (batch_trace (batch_download False (\<lambda>c. Inl ''unused'') 0
      [(''u1'', \<lparr>events = [], outcome = Inr (''v.mp4'', ''Video'')\<rparr>)] (Some ''b1'') None))) = None \<and>
   status (last (batch_trace (batch_download False (\<lambda>c. Inl ''unused'') 0
      [(''u1'', \<lparr>events = [], outcome = Inr (''v.mp4'', ''Video'')\<rparr>)] (Some ''b1'') None))) = ''completed'' \<and>
   fst (download_completed_file
      [''b1'' \<mapsto> last (batch_trace (batch_download False (\<lambda>c. Inl ''unused'') 0
         [(''u1'', \<lparr>events = [], outcome = Inr (''v.mp4'', ''Video'')\<rparr>)] (Some ''b1'') None))]
      (\<lambda>p. True) ''b1'') = JsonError ''File not found'' 404"
proof -
  let ?B = "batch_download False (\<lambda>c. Inl ''unused'') 0
      [(''u1'', \<lparr>events = [], outcome = Inr (''v.mp4'', ''Video'')\<rparr>)] (Some ''b1'') None"
  have h1: "truthy_id (Some ''b1'')" by (simp add: truthy_id_def)
  have "batch_trace ?B \<noteq> []" by (simp add: batch_trace_tracked [OF h1])
  then have h2: "last (batch_trace ?B) \<in> set (batch_trace ?B)" by (rule last_in_set)
  have h3: "[''b1'' \<mapsto> last (batch_trace ?B)] ''b1'' = Some (last (batch_trace ?B))" by simp
  from batch_task_has_no_file [where tasks = "[''b1'' \<mapsto> last (batch_trace ?B)]"
      and k = "''b1''" and path_exists = "\<lambda>p. True", OF h1 h2 h3] h1
  show ?thesis by simp
qed

section \<open>C10: the checkpoint does not depend on the transcoding engine\<close>

text \<open>
  Claim C10, as amended. The checkpoint depends on the truth value of \<^verbatim>\<open>post_process\<close>
  and on nothing else. When \<^verbatim>\<open>post_process\<close> is truthy (a non-empty configuration or a
  non-empty string), the callback that reports the end of the fetch sets status
  \<^verbatim>\<open>post_processing\<close> and progress 70; the hook does not read \<^verbatim>\<open>ffmpeg_available\<close> (its
  model has no such argument). Hence, whatever the availability \<open>av\<close> of the engine, a
  tracked task whose fetch reports its end and succeeds holds status
  \<^verbatim>\<open>post_processing\<close> with progress 70 at some point and ends with status
  \<^verbatim>\<open>completed\<close>. When \<^verbatim>\<open>post_process\<close> is present but empty (\<^verbatim>\<open>{}\<close> or \<^verbatim>\<open>''\<close>), as when
  it is absent, the callback sets status \<^verbatim>\<open>finished\<close> and progress 100 and the task
  never holds status \<^verbatim>\<open>post_processing\<close>, although its \<^verbatim>\<open>post_processing\<close> flag, which
  records presence, is true.
\<close>

theorem checkpoint_ignores_engine_availability:
  "(truthy_pp pp \<longrightarrow>
      status (last (t # after_each t (progress_hook pp (Finished f)))) = ''post_processing'' \<and>
      progress (last (t # after_each t (progress_hook pp (Finished f)))) = 70 \<and>
      (truthy_id task_id \<and> Finished f \<in> set (events run) \<and> outcome run = Inr (fname, title) \<longrightarrow>
         (\<exists>s \<in> set (trace (download_video av eng run now task_id pp)).
             status s = ''post_processing'' \<and> progress s = 70) \<and>
         status (last (trace (download_video av eng run now task_id pp))) = ''completed''))
   \<and> (\<not> truthy_pp pp \<longrightarrow>
      status (last (t # after_each t (progress_hook pp (Finished f)))) = ''finished'' \<and>
      progress (last (t # after_each t (progress_hook pp (Finished f)))) = 100 \<and>
      list_all (\<lambda>s. status s \<noteq> ''post_processing'')
        (trace (download_video av eng run now task_id pp)))
   \<and> post_processing (new_task now pp) = (pp \<noteq> None)"
proof (intro conjI impI)
  assume "truthy_pp pp"
  then show "status (last (t # after_each t (progress_hook pp (Finished f)))) = ''post_processing''"
    and "progress (last (t # after_each t (progress_hook pp (Finished f)))) = 70"
    by (simp_all add: setters)
next
  assume tp: "truthy_pp pp"
    and a: "truthy_id task_id \<and> Finished f \<in> set (events run) \<and> outcome run = Inr (fname, title)"
  from a show "\<exists>s \<in> set (trace (download_video av eng run now task_id pp)).
                status s = ''post_processing'' \<and> progress s = 70"
    using single_reaches_checkpoint [OF _ tp] by blast
  from a show "status (last (trace (download_video av eng run now task_id pp))) = ''completed''"
    using single_final_ok(1) by blast
next
  assume np: "\<not> truthy_pp pp"
  then show "status (last (t # after_each t (progress_hook pp (Finished f)))) = ''finished''"
    and "progress (last (t # after_each t (progress_hook pp (Finished f)))) = 100"
    by (simp_all add: setters)
  from np show "list_all (\<lambda>s. status s \<noteq> ''post_processing'')
        (trace (download_video av eng run now task_id pp))"
    by (rule single_without_checkpoint)
next
  show "post_processing (new_task now pp) = (pp \<noteq> None)"
    by (simp add: new_task_def)
qed

text \<open>The amended C10 with the engine unavailable: at a compress configuration the
  post-processing is skipped and the task still holds status \<^verbatim>\<open>post_processing\<close> before
  it is \<^verbatim>\<open>completed\<close>; at the empty configuration it never holds that status.\<close>

theorem checkpoint_ignores_engine_availability_witness:
  "truthy_pp (Some (Config [(''action'', ''compress'')])) \<and> truthy_id (Some ''t1'') \<and>
   \<not> truthy_pp (Some (Config [])) \<and>
   (\<exists>s \<in> set (trace (download_video False (\<lambda>c. Inr ''v_compressed.mp4'')
        \<lparr>events = [Finished ''v.mp4''], outcome = Inr (''v.mp4'', ''Video'')\<rparr> 0 (Some ''t1'')
        (Some (Config [(''action'', ''compress'')])))).
       status s = ''post_processing'' \<and> progress s = 70) \<and>
   status (last (trace (download_video False (\<lambda>c. Inr ''v_compressed.mp4'')
        \<lparr>events = [Finished ''v.mp4''], outcome = Inr (''v.mp4'', ''Video'')\<rparr> 0 (Some ''t1'')
        (Some (Config [(''action'', ''compress'')]))))) = ''completed'' \<and>
   list_all (\<lambda>s. status s \<noteq> ''post_processing'')
     (trace (download_video False (\<lambda>c. Inr ''v_compressed.mp4'')
        \<lparr>events = [Finished ''v.mp4''], outcome = Inr (''v.mp4'', ''Video'')\<rparr> 0 (Some ''t1'')
        (Some (Config []))))"
proof -
  have h1: "truthy_pp (Some (Config [(''action'', ''compress'')]))" by (simp add: truthy_pp_def)
  have h2: "truthy_id (Some ''t1'')" by (simp add: truthy_id_def)
  have h3: "Finished ''v.mp4'' \<in> set (events \<lparr>events = [Finished ''v.mp4''],
               outcome = Inr (''v.mp4'', ''Video'')\<rparr>)" by simp
  have h4: "outcome \<lparr>events = [Finished ''v.mp4''], outcome = Inr (''v.mp4'', ''Video'')\<rparr>
              = Inr (''v.mp4'', ''Video'')" by simp
  have h5: "\<not> truthy_pp (Some (Config []))" by (simp add: truthy_pp_def)
  from h1 h2 h3 h4 h5
    checkpoint_ignores_engine_availability [where pp = "Some (Config [(''action'', ''compress'')])"
      and f = "''v.mp4''" and task_id = "Some ''t1''"
      and run = "\<lparr>events = [Finished ''v.mp4''], outcome = Inr (''v.mp4'', ''Video'')\<rparr>"
      and fname = "''v.mp4''" and title = "''Video''" and av = False
      and eng = "\<lambda>c. Inr ''v_compressed.mp4''" and now = 0]
    checkpoint_ignores_engine_availability [where pp = "Some (Config [])"
      and f = "''v.mp4''" and task_id = "Some ''t1''"
      and run = "\<lparr>events = [Finished ''v.mp4''], outcome = Inr (''v.mp4'', ''Video'')\<rparr>"
      and fname = "''v.mp4''" and title = "''Video''" and av = False
      and eng = "\<lambda>c. Inr ''v_compressed.mp4''" and now = 0]
  show ?thesis by blast
qed

text \<open>
  Claim C10 as stated speaks of every task submitted with a configuration, by its
  presence alone. It fails at the empty configuration \<^verbatim>\<open>{}\<close>: the task is stored with
  the \<^verbatim>\<open>post_processing\<close> flag true, the callback that reports the end of the fetch
  sets neither status \<^verbatim>\<open>post_processing\<close> nor progress 70, and no value of the task
  has status \<^verbatim>\<open>post_processing\<close>.
\<close>

theorem empty_configuration_counterexample:
  "post_processing (new_task 0 (Some (Config [])))
   \<and> status (last (new_task 0 (Some (Config [])) # after_each (new_task 0 (Some (Config [])))
        (progress_hook (Some (Config [])) (Finished ''v.mp4'')))) \<noteq> ''post_processing''
   \<and> progress (last (new_task 0 (Some (Config [])) # after_each (new_task 0 (Some (Config [])))
        (progress_hook (Some (Config [])) (Finished ''v.mp4'')))) \<noteq> 70
   \<and> list_all (\<lambda>s. status s \<noteq> ''post_processing'')
        (trace (download_video False (\<lambda>c. Inl ''unused'')
           \<lparr>events = [Finished ''v.mp4''], outcome = Inr (''v.mp4'', ''Video'')\<rparr> 0 (Some ''t1'')
           (Some (Config []))))"
  by (simp add: run_defs setters)

end
